theory Spec2Isabelle
  imports Main "HOL-Library.Multiset"
begin

section \<open>Branch records and the console\<close>

text \<open>
  A branch record is the object that \<open>rebuildStorageFromChats\<close> pushes on
  \<open>branchDataList\<close> (StorageRebuilder.js, lines 313-321). Identifiers and names are
  JavaScript strings. The nullable fields are built with \<open>value || null\<close>, so they
  hold either \<open>null\<close> or a truthy value: they are options, \<open>None\<close> is \<open>null\<close>, and
  the code's truthiness test \<open>if (branch.parent_uuid)\<close> is the test for \<open>Some\<close>.
\<close>

record branch =
  uuid :: string
  parent_uuid :: "string option"
  root_uuid :: string
  character_id :: string
  chat_name :: string
  branch_point :: "nat option"
  created_at :: nat

text \<open>
  The lines the modelled functions write to the console, one constructor per message:
  the orphan warning and the orphan summary of \<open>validateAndFixBranches\<close>, and the two
  warnings of \<open>sortBranchesForRegistration\<close>.
\<close>

datatype console =
    OrphanedBranch string string
  | FixedOrphaned nat
  | CircularDependency string
  | BranchNotFound string

section \<open>validateAndFixBranches\<close>

text \<open>
  StorageRebuilder.js, lines 455-480. \<open>uuidToChatName\<close> is a JavaScript \<open>Map\<close> from
  uuid to chat name, of which only \<open>has\<close> is used. The loop state is the array
  \<open>validated\<close>, the counter \<open>orphanedCount\<close> and the console.
\<close>

type_synonym validate_state = "branch list \<times> nat \<times> console list"

fun validate_loop ::
  "(string \<rightharpoonup> string) \<Rightarrow> branch list \<Rightarrow> validate_state \<Rightarrow> validate_state"
where
  "validate_loop uuidToChatName [] st = st"
| "validate_loop uuidToChatName (b # rest) (validated, orphanedCount, out) =
     (case parent_uuid b of
        Some p \<Rightarrow>
          if p \<notin> dom uuidToChatName
          then validate_loop uuidToChatName rest
                 (validated @ [b\<lparr>parent_uuid := None\<rparr>], orphanedCount + 1,
                  out @ [OrphanedBranch (chat_name b) p])
          else validate_loop uuidToChatName rest (validated @ [b], orphanedCount, out)
      | None \<Rightarrow> validate_loop uuidToChatName rest (validated @ [b], orphanedCount, out))"

definition validateAndFixBranches ::
  "branch list \<Rightarrow> (string \<rightharpoonup> string) \<Rightarrow> branch list \<times> console list"
where
  "validateAndFixBranches branches uuidToChatName =
     (case validate_loop uuidToChatName branches ([], 0, []) of
        (validated, orphanedCount, out) \<Rightarrow>
          (validated, if orphanedCount > 0 then out @ [FixedOrphaned orphanedCount] else out))"

text \<open>
  The words of the specification: a record is orphaned when its parent identifier is
  not null and is absent from the known universe; the resolver nulls the parent of an
  orphaned record and leaves every other record as it is; it reports each orphaned
  record with its name and its old parent.
\<close>

definition orphaned :: "(string \<rightharpoonup> string) \<Rightarrow> branch \<Rightarrow> bool" where
  "orphaned known b = (\<exists>p. parent_uuid b = Some p \<and> p \<notin> dom known)"

definition resolve_orphan :: "(string \<rightharpoonup> string) \<Rightarrow> branch \<Rightarrow> branch" where
  "resolve_orphan known b = (if orphaned known b then b\<lparr>parent_uuid := None\<rparr> else b)"

definition orphan_report :: "branch \<Rightarrow> console" where
  "orphan_report b = OrphanedBranch (chat_name b) (the (parent_uuid b))"

fun is_orphan_warning :: "console \<Rightarrow> bool" where
  "is_orphan_warning (OrphanedBranch n p) = True"
| "is_orphan_warning e = False"

lemma validate_loop_spec:
  "validate_loop known bs (validated, cnt, out) =
     (validated @ map (resolve_orphan known) bs,
      cnt + length (filter (orphaned known) bs),
      out @ map orphan_report (filter (orphaned known) bs))"
proof (induction bs arbitrary: validated cnt out)
  case Nil
  show ?case by simp
next
  case (Cons b bs)
  show ?case
  proof (cases "parent_uuid b")
    case None
    then have "\<not> orphaned known b" by (simp add: orphaned_def)
    with None Cons.IH show ?thesis by (simp add: resolve_orphan_def)
  next
    case (Some p)
    show ?thesis
    proof (cases "p \<in> dom known")
      case True
      with Some have "\<not> orphaned known b" by (simp add: orphaned_def)
      with Some True Cons.IH show ?thesis by (simp add: resolve_orphan_def)
    next
      case False
      with Some have "orphaned known b" by (simp add: orphaned_def)
      with Some False Cons.IH show ?thesis
        by (simp add: resolve_orphan_def orphan_report_def)
    qed
  qed
qed

lemma filter_orphan_warning_reports:
  "filter is_orphan_warning (map orphan_report bs) = map orphan_report bs"
  by (induction bs) (simp_all add: orphan_report_def)

text \<open>
  C3. For every list of branch records and every known universe,
  \<open>validateAndFixBranches\<close> returns the records in their order, each orphaned record
  (parent not null and absent from the universe) with \<open>parent_uuid\<close> set to null and
  its other fields as they were, every other record unchanged; the console receives
  exactly one orphan warning per orphaned record, in order, naming the record and its
  old parent, followed by one summary line when there was an orphan. The function is
  total (it never throws) and its result is a function of its two arguments alone.
\<close>

theorem validateAndFixBranches_resolves_orphans:
  "fst (validateAndFixBranches branches known) = map (resolve_orphan known) branches
   \<and> length (fst (validateAndFixBranches branches known)) = length branches
   \<and> filter is_orphan_warning (snd (validateAndFixBranches branches known))
       = map orphan_report (filter (orphaned known) branches)
   \<and> length (filter is_orphan_warning (snd (validateAndFixBranches branches known)))
       = length (filter (orphaned known) branches)"
  by (simp add: validateAndFixBranches_def validate_loop_spec filter_orphan_warning_reports)

theorem validateAndFixBranches_witness:
  "fst (validateAndFixBranches
      [\<lparr>uuid = ''A'', parent_uuid = None, root_uuid = ''A'', character_id = ''c'',
         chat_name = ''a'', branch_point = None, created_at = 0\<rparr>,
       \<lparr>uuid = ''C'', parent_uuid = Some ''Z'', root_uuid = ''A'', character_id = ''c'',
         chat_name = ''c'', branch_point = None, created_at = 2\<rparr>]
      [''A'' \<mapsto> ''a'', ''C'' \<mapsto> ''c''])
   = [\<lparr>uuid = ''A'', parent_uuid = None, root_uuid = ''A'', character_id = ''c'',
         chat_name = ''a'', branch_point = None, created_at = 0\<rparr>,
      \<lparr>uuid = ''C'', parent_uuid = None, root_uuid = ''A'', character_id = ''c'',
         chat_name = ''c'', branch_point = None, created_at = 2\<rparr>]"
  using validateAndFixBranches_resolves_orphans
    [of "[\<lparr>uuid = ''A'', parent_uuid = None, root_uuid = ''A'', character_id = ''c'',
           chat_name = ''a'', branch_point = None, created_at = 0\<rparr>,
         \<lparr>uuid = ''C'', parent_uuid = Some ''Z'', root_uuid = ''A'', character_id = ''c'',
           chat_name = ''c'', branch_point = None, created_at = 2\<rparr>]"
        "[''A'' \<mapsto> ''a'', ''C'' \<mapsto> ''c'']"]
  by (simp add: resolve_orphan_def orphaned_def)

section \<open>sortBranchesForRegistration\<close>

text \<open>
  StorageRebuilder.js, lines 401-446. \<open>branchMap\<close> is \<open>new Map(branches.map(b => [b.uuid, b]))\<close>:
  the entries are set in order, so a later record with the same uuid replaces an earlier one.
  \<open>visited\<close> and \<open>temp\<close> are JavaScript \<open>Set\<close>s of uuids, \<open>sorted\<close> is the output array, and
  \<open>warnings\<close> collects what \<open>visit\<close> writes with \<open>console.warn\<close>.
\<close>


fun from_entries :: "branch list \<Rightarrow> (string \<rightharpoonup> branch) \<Rightarrow> (string \<rightharpoonup> branch)" where
  "from_entries [] m = m"
| "from_entries (b # bs) m = from_entries bs (m(uuid b \<mapsto> b))"

definition branchMap :: "branch list \<Rightarrow> (string \<rightharpoonup> branch)" where
  "branchMap branches = from_entries branches Map.empty"

record sort_state =
  visited :: "string set"
  temp :: "string set"
  sorted :: "branch list"
  warnings :: "console list"

lemma fold_upd_dom:
  "dom (from_entries bs m0) = dom m0 \<union> uuid ` set bs"
  by (induction bs arbitrary: m0) auto

lemma dom_branchMap: "dom (branchMap bs) = uuid ` set bs"
  by (simp add: branchMap_def fold_upd_dom)

lemma finite_dom_branchMap: "finite (dom (branchMap bs))"
  by (simp add: dom_branchMap)

function visit :: "branch list \<Rightarrow> sort_state \<Rightarrow> string \<Rightarrow> sort_state" where
  "visit branches st u =
     (if u \<in> visited st then st
      else if u \<in> temp st then st\<lparr>warnings := warnings st @ [CircularDependency u]\<rparr>
      else case branchMap branches u of
             None \<Rightarrow> st\<lparr>warnings := warnings st @ [BranchNotFound u]\<rparr>
           | Some b \<Rightarrow>
               let st1 = st\<lparr>temp := insert u (temp st)\<rparr>;
                   st2 = (case parent_uuid b of
                            Some p \<Rightarrow> visit branches st1 p
                          | None \<Rightarrow> st1)
               in st2\<lparr>temp := temp st2 - {u},
                      visited := insert u (visited st2),
                      sorted := sorted st2 @ [b]\<rparr>)"
  by pat_completeness auto
termination
proof (relation "measure (\<lambda>(bs, st, u). card (dom (branchMap bs) - temp st))")
  show "wf (measure (\<lambda>(bs, st, u). card (dom (branchMap bs) - temp st)))" by simp
next
  fix branches :: "branch list" and st :: sort_state and u b st1 p
  assume "u \<notin> temp st" and b: "branchMap branches u = Some b"
    and st1: "st1 = st\<lparr>temp := insert u (temp st)\<rparr>"
  have "dom (branchMap branches) - insert u (temp st) \<subset> dom (branchMap branches) - temp st"
    using \<open>u \<notin> temp st\<close> b by auto
  then have "card (dom (branchMap branches) - insert u (temp st))
             < card (dom (branchMap branches) - temp st)"
    by (intro psubset_card_mono) (simp_all add: finite_dom_branchMap)
  then show "((branches, st1, p), (branches, st, u))
        \<in> measure (\<lambda>(bs, st, u). card (dom (branchMap bs) - temp st))"
    by (simp add: st1)
qed

declare visit.simps [simp del]

definition sortBranchesForRegistration :: "branch list \<Rightarrow> branch list \<times> console list" where
  "sortBranchesForRegistration branches =
     (let st = fold (\<lambda>b st. visit branches st (uuid b)) branches
                 \<lparr>visited = {}, temp = {}, sorted = [], warnings = []\<rparr>
      in (sorted st, warnings st))"


text \<open>
  The parent edge the code follows from a uuid (through \<open>branchMap\<close>), the parent links of
  the records of a list, the ordering property of an output sequence, and the invariants
  of the traversal.
\<close>

definition parent_of :: "branch list \<Rightarrow> string \<Rightarrow> string option" where
  "parent_of branches u = (case branchMap branches u of None \<Rightarrow> None | Some b \<Rightarrow> parent_uuid b)"

definition parent_rel :: "branch list \<Rightarrow> (string \<times> string) set" where
  "parent_rel branches = {(u, p). parent_of branches u = Some p}"

definition parent_links :: "branch list \<Rightarrow> (string \<times> string) set" where
  "parent_links branches = {(u, p). \<exists>b. b \<in> set branches \<and> uuid b = u \<and> parent_uuid b = Some p}"

definition parents_before :: "branch list \<Rightarrow> bool" where
  "parents_before xs =
     (\<forall>i<length xs. \<forall>p. parent_uuid (xs ! i) = Some p \<longrightarrow> (\<exists>j<i. uuid (xs ! j) = p))"

definition sort_inv :: "branch list \<Rightarrow> sort_state \<Rightarrow> bool" where
  "sort_inv bs st =
     (visited st = uuid ` set (sorted st)
      \<and> distinct (map uuid (sorted st))
      \<and> (\<forall>b\<in>set (sorted st). branchMap bs (uuid b) = Some b)
      \<and> visited st \<inter> temp st = {})"

definition cyc_inv :: "branch list \<Rightarrow> sort_state \<Rightarrow> bool" where
  "cyc_inv bs st =
     (\<forall>v\<in>visited st. (v, v) \<in> (parent_rel bs)\<^sup>+ \<longrightarrow>
        (\<exists>c. CircularDependency c \<in> set (warnings st)
             \<and> (v, c) \<in> (parent_rel bs)\<^sup>* \<and> (c, v) \<in> (parent_rel bs)\<^sup>*))"

lemma fold_upd_other:
  "u \<notin> uuid ` set bs \<Longrightarrow> from_entries bs m0 u = m0 u"
  by (induction bs arbitrary: m0) auto

lemma fold_upd_Some:
  "from_entries bs m0 u = Some b \<Longrightarrow> (b \<in> set bs \<and> uuid b = u) \<or> m0 u = Some b"
proof (induction bs arbitrary: m0)
  case Nil
  then show ?case by simp
next
  case (Cons a bs)
  from Cons.prems have "from_entries bs (m0(uuid a \<mapsto> a)) u = Some b" by simp
  from Cons.IH [OF this] show ?case by (auto split: if_splits)
qed

lemma branchMap_Some: "branchMap bs u = Some b \<Longrightarrow> b \<in> set bs \<and> uuid b = u"
  using fold_upd_Some [of bs Map.empty u b] by (simp add: branchMap_def)

lemma fold_upd_distinct:
  "distinct (map uuid bs) \<Longrightarrow> b \<in> set bs \<Longrightarrow> from_entries bs m0 (uuid b) = Some b"
proof (induction bs arbitrary: m0)
  case Nil
  then show ?case by simp
next
  case (Cons a bs)
  show ?case
  proof (cases "b \<in> set bs")
    case True
    with Cons show ?thesis by simp
  next
    case False
    with Cons.prems have ba: "b = a" and "uuid a \<notin> uuid ` set bs" by auto
    then show ?thesis by (simp add: fold_upd_other)
  qed
qed

lemma branchMap_distinct:
  "distinct (map uuid bs) \<Longrightarrow> b \<in> set bs \<Longrightarrow> branchMap bs (uuid b) = Some b"
  by (simp add: branchMap_def fold_upd_distinct)

lemma parent_rel_subset_links: "parent_rel bs \<subseteq> parent_links bs"
proof
  fix e assume "e \<in> parent_rel bs"
  then obtain u p where e: "e = (u, p)" and "parent_of bs u = Some p"
    by (auto simp: parent_rel_def)
  then obtain b where "branchMap bs u = Some b" "parent_uuid b = Some p"
    by (auto simp: parent_of_def split: option.splits)
  with branchMap_Some [of bs u b] show "e \<in> parent_links bs"
    unfolding parent_links_def e by blast
qed

lemma parent_links_subset_rel:
  "distinct (map uuid bs) \<Longrightarrow> parent_links bs \<subseteq> parent_rel bs"
  by (auto simp: parent_rel_def parent_links_def parent_of_def branchMap_distinct)

lemma parent_rel_dom: "(u, p) \<in> parent_rel bs \<Longrightarrow> u \<in> dom (branchMap bs)"
  by (auto simp: parent_rel_def parent_of_def split: option.splits)

lemma parents_before_snoc:
  assumes "parents_before xs" and "\<forall>p. parent_uuid b = Some p \<longrightarrow> p \<in> uuid ` set xs"
  shows "parents_before (xs @ [b])"
  unfolding parents_before_def
proof (intro allI impI)
  fix i p
  assume i: "i < length (xs @ [b])" and p: "parent_uuid ((xs @ [b]) ! i) = Some p"
  have "\<exists>j. j < i \<and> j < length xs \<and> uuid (xs ! j) = p"
  proof (cases "i < length xs")
    case True
    with p have "parent_uuid (xs ! i) = Some p" by (simp add: nth_append)
    with assms(1) True obtain j where "j < i" "uuid (xs ! j) = p"
      unfolding parents_before_def by blast
    with True show ?thesis by (intro exI [of _ j]) simp
  next
    case False
    with i have il: "i = length xs" by simp
    with p have "parent_uuid b = Some p" by simp
    with assms(2) have "p \<in> uuid ` set xs" by blast
    then obtain x where "x \<in> set xs" "uuid x = p" by blast
    then obtain j where "j < length xs" "xs ! j = x" by (auto simp: in_set_conv_nth)
    with il \<open>uuid x = p\<close> show ?thesis by (intro exI [of _ j]) simp
  qed
  then obtain j where "j < i" "j < length xs" "uuid (xs ! j) = p" by blast
  then show "\<exists>j<i. uuid ((xs @ [b]) ! j) = p"
    by (intro exI [of _ j]) (simp add: nth_append)
qed

lemma sort_inv_warnings [simp]: "sort_inv bs (st\<lparr>warnings := w\<rparr>) = sort_inv bs st"
  by (simp add: sort_inv_def)

lemma visit_props:
  "sort_inv bs st \<Longrightarrow>
     sort_inv bs (visit bs st u)
     \<and> temp (visit bs st u) = temp st
     \<and> visited st \<subseteq> visited (visit bs st u)
     \<and> (\<exists>new. sorted (visit bs st u) = sorted st @ new)
     \<and> (u \<in> dom (branchMap bs) \<longrightarrow> u \<notin> temp st \<longrightarrow> u \<in> visited (visit bs st u))"
proof (induction bs st u rule: visit.induct)
  case (1 bs st u)
  note inv = \<open>sort_inv bs st\<close>
  consider (seen) "u \<in> visited st"
    | (cyc) "u \<notin> visited st" "u \<in> temp st"
    | (missing) "u \<notin> visited st" "u \<notin> temp st" "branchMap bs u = None"
    | (found) b where "u \<notin> visited st" "u \<notin> temp st" "branchMap bs u = Some b"
    by (cases "branchMap bs u") auto
  then show ?case
  proof cases
    case seen
    then have "visit bs st u = st" by (simp add: visit.simps [of bs st u])
    with inv seen show ?thesis by simp
  next
    case cyc
    then have "visit bs st u = st\<lparr>warnings := warnings st @ [CircularDependency u]\<rparr>"
      by (simp add: visit.simps [of bs st u])
    with inv cyc show ?thesis by simp
  next
    case missing
    then have "visit bs st u = st\<lparr>warnings := warnings st @ [BranchNotFound u]\<rparr>"
      by (simp add: visit.simps [of bs st u])
    moreover have "u \<notin> dom (branchMap bs)" using missing by auto
    ultimately show ?thesis using inv by simp
  next
    case found
    note nv = found(1) and nt = found(2) and b = found(3)
    define st1 where "st1 = st\<lparr>temp := insert u (temp st)\<rparr>"
    define st2 where "st2 = (case parent_uuid b of Some p \<Rightarrow> visit bs st1 p | None \<Rightarrow> st1)"
    have inv1: "sort_inv bs st1"
      using inv nv by (auto simp: sort_inv_def st1_def)
    have st2: "sort_inv bs st2 \<and> temp st2 = insert u (temp st) \<and> visited st \<subseteq> visited st2
               \<and> (\<exists>new. sorted st2 = sorted st @ new)"
    proof (cases "parent_uuid b")
      case None
      then show ?thesis using inv1 by (simp add: st2_def st1_def)
    next
      case (Some p)
      from "1.IH" [OF nv nt b st1_def Some inv1]
      show ?thesis using Some by (simp add: st2_def st1_def)
    qed
    then have inv2: "sort_inv bs st2" and t2: "temp st2 = insert u (temp st)"
      and v2: "visited st \<subseteq> visited st2" by simp_all
    from st2 obtain new where s2: "sorted st2 = sorted st @ new" by blast
    have res: "visit bs st u = st2\<lparr>temp := temp st2 - {u},
                      visited := insert u (visited st2), sorted := sorted st2 @ [b]\<rparr>"
      using nv nt b
      by (cases "parent_uuid b") (simp_all add: visit.simps [of bs st u] st1_def st2_def Let_def)
    have ub: "uuid b = u" using branchMap_Some [OF b] by simp
    from inv2 t2 have u2: "u \<notin> visited st2" unfolding sort_inv_def by blast
    have c1: "visited (visit bs st u) = uuid ` set (sorted (visit bs st u))"
      using inv2 ub by (simp add: res sort_inv_def)
    have c2: "distinct (map uuid (sorted (visit bs st u)))"
      using inv2 u2 ub by (simp add: res sort_inv_def)
    have c3: "\<forall>x\<in>set (sorted (visit bs st u)). branchMap bs (uuid x) = Some x"
      using inv2 ub b by (simp add: res sort_inv_def)
    have "visited st2 \<inter> insert u (temp st) = {}" using inv2 t2 unfolding sort_inv_def by blast
    then have c4: "visited (visit bs st u) \<inter> temp (visit bs st u) = {}"
      using nt by (auto simp: res t2)
    have "sort_inv bs (visit bs st u)"
      unfolding sort_inv_def using c1 c2 c3 c4 by blast
    moreover have "temp (visit bs st u) = temp st" using t2 nt by (simp add: res)
    moreover have "visited st \<subseteq> visited (visit bs st u)" using v2 by (auto simp: res)
    moreover have "\<exists>new. sorted (visit bs st u) = sorted st @ new" using s2 by (simp add: res)
    moreover have "u \<in> visited (visit bs st u)" by (simp add: res)
    ultimately show ?thesis by blast
  qed
qed


lemma visit_found_root:
  "u \<notin> visited st \<Longrightarrow> u \<notin> temp st \<Longrightarrow> branchMap bs u = Some b \<Longrightarrow> parent_uuid b = None \<Longrightarrow>
   visit bs st u = st\<lparr>temp := temp st, visited := insert u (visited st), sorted := sorted st @ [b]\<rparr>"
  by (simp add: visit.simps [of bs st u] Let_def)

lemma visit_found_child:
  "u \<notin> visited st \<Longrightarrow> u \<notin> temp st \<Longrightarrow> branchMap bs u = Some b \<Longrightarrow> parent_uuid b = Some p \<Longrightarrow>
   visit bs st u =
     (visit bs (st\<lparr>temp := insert u (temp st)\<rparr>) p)
       \<lparr>temp := temp (visit bs (st\<lparr>temp := insert u (temp st)\<rparr>) p) - {u},
        visited := insert u (visited (visit bs (st\<lparr>temp := insert u (temp st)\<rparr>) p)),
        sorted := sorted (visit bs (st\<lparr>temp := insert u (temp st)\<rparr>) p) @ [b]\<rparr>"
  by (simp add: visit.simps [of bs st u] Let_def)

lemma sort_inv_push_temp:
  "sort_inv bs st \<Longrightarrow> u \<notin> visited st \<Longrightarrow> sort_inv bs (st\<lparr>temp := insert u (temp st)\<rparr>)"
  by (auto simp: sort_inv_def)

lemma visit_parents_before:
  "sort_inv bs st \<Longrightarrow> parents_before (sorted st) \<Longrightarrow>
   \<forall>t\<in>temp st. (t, u) \<in> (parent_rel bs)\<^sup>+ \<Longrightarrow>
   acyclic (parent_rel bs) \<Longrightarrow>
   \<forall>a p. (a, p) \<in> parent_rel bs \<longrightarrow> p \<in> dom (branchMap bs) \<Longrightarrow>
   parents_before (sorted (visit bs st u))"
proof (induction bs st u rule: visit.induct)
  case (1 bs st u)
  note inv = \<open>sort_inv bs st\<close> and pb = \<open>parents_before (sorted st)\<close>
  consider (seen) "u \<in> visited st"
    | (cyc) "u \<notin> visited st" "u \<in> temp st"
    | (missing) "u \<notin> visited st" "u \<notin> temp st" "branchMap bs u = None"
    | (root) b where "u \<notin> visited st" "u \<notin> temp st" "branchMap bs u = Some b"
        "parent_uuid b = None"
    | (child) b p where "u \<notin> visited st" "u \<notin> temp st" "branchMap bs u = Some b"
        "parent_uuid b = Some p"
    by (cases "branchMap bs u"; cases "parent_uuid (the (branchMap bs u))") auto
  then show ?case
  proof cases
    case seen
    then show ?thesis using pb by (simp add: visit.simps [of bs st u])
  next
    case cyc
    then show ?thesis using pb by (simp add: visit.simps [of bs st u])
  next
    case missing
    then show ?thesis using pb by (simp add: visit.simps [of bs st u])
  next
    case root
    then show ?thesis using pb
      by (simp add: visit_found_root [of u st bs b] parents_before_snoc)
  next
    case child
    note nv = child(1) and nt = child(2) and b = child(3) and par = child(4)
    define st1 where "st1 = st\<lparr>temp := insert u (temp st)\<rparr>"
    have inv1: "sort_inv bs st1"
      unfolding st1_def using inv nv by (rule sort_inv_push_temp)
    have edge: "(u, p) \<in> parent_rel bs"
      using b par by (simp add: parent_rel_def parent_of_def)
    have stack: "\<forall>t\<in>temp st1. (t, p) \<in> (parent_rel bs)\<^sup>+"
    proof
      fix t assume "t \<in> temp st1"
      then have "t = u \<or> t \<in> temp st" by (simp add: st1_def)
      then show "(t, p) \<in> (parent_rel bs)\<^sup>+"
      proof
        assume "t = u" with edge show ?thesis by blast
      next
        assume "t \<in> temp st"
        with "1.prems"(3) have "(t, u) \<in> (parent_rel bs)\<^sup>+" by blast
        then show ?thesis using edge by (rule trancl_into_trancl)
      qed
    qed
    have pb1: "parents_before (sorted st1)" using pb by (simp add: st1_def)
    have pb2: "parents_before (sorted (visit bs st1 p))"
      using "1.IH" [OF nv nt b st1_def par inv1 pb1 stack "1.prems"(4) "1.prems"(5)] .
    note props = visit_props [OF inv1, of p]
    have pdom: "p \<in> dom (branchMap bs)" using "1.prems"(5) edge by blast
    have "p \<noteq> u"
    proof
      assume "p = u"
      with edge have "(u, u) \<in> (parent_rel bs)\<^sup>+" by blast
      with "1.prems"(4) show False by (simp add: acyclic_def)
    qed
    moreover have "p \<notin> temp st"
    proof
      assume "p \<in> temp st"
      with "1.prems"(3) have "(p, u) \<in> (parent_rel bs)\<^sup>+" by blast
      then have "(p, p) \<in> (parent_rel bs)\<^sup>+" using edge by (rule trancl_into_trancl)
      with "1.prems"(4) show False by (simp add: acyclic_def)
    qed
    ultimately have "p \<notin> temp st1" by (simp add: st1_def)
    with props pdom have "p \<in> visited (visit bs st1 p)" by blast
    moreover from props have "visited (visit bs st1 p) = uuid ` set (sorted (visit bs st1 p))"
      by (simp add: sort_inv_def)
    ultimately have "p \<in> uuid ` set (sorted (visit bs st1 p))" by simp
    with par have "\<forall>q. parent_uuid b = Some q \<longrightarrow> q \<in> uuid ` set (sorted (visit bs st1 p))"
      by simp
    with pb2 have "parents_before (sorted (visit bs st1 p) @ [b])"
      by (rule parents_before_snoc)
    then show ?thesis
      using nv nt b par by (simp add: visit_found_child [of u st bs b p] st1_def)
  qed
qed

lemma cyc_inv_warn:
  "cyc_inv bs st \<Longrightarrow> cyc_inv bs (st\<lparr>warnings := warnings st @ [w]\<rparr>)"
  unfolding cyc_inv_def by auto

lemma on_cycle_step:
  assumes "(u, u) \<in> r\<^sup>+"
  shows "\<exists>p. (u, p) \<in> r \<and> (p, p) \<in> r\<^sup>+"
proof -
  from assms obtain z where uz: "(u, z) \<in> r" and zu: "(z, u) \<in> r\<^sup>*"
    by (auto dest: tranclD)
  from zu uz have "(z, z) \<in> r\<^sup>+" by (rule rtrancl_into_trancl1)
  with uz show ?thesis by blast
qed

lemma visit_cyc_inv:
  "sort_inv bs st \<Longrightarrow> cyc_inv bs st \<Longrightarrow> cyc_inv bs (visit bs st u)"
proof (induction bs st u rule: visit.induct)
  case (1 bs st u)
  note inv = \<open>sort_inv bs st\<close> and ci = \<open>cyc_inv bs st\<close>
  consider (seen) "u \<in> visited st"
    | (cyc) "u \<notin> visited st" "u \<in> temp st"
    | (missing) "u \<notin> visited st" "u \<notin> temp st" "branchMap bs u = None"
    | (root) b where "u \<notin> visited st" "u \<notin> temp st" "branchMap bs u = Some b"
        "parent_uuid b = None"
    | (child) b p where "u \<notin> visited st" "u \<notin> temp st" "branchMap bs u = Some b"
        "parent_uuid b = Some p"
    by (cases "branchMap bs u"; cases "parent_uuid (the (branchMap bs u))") auto
  then show ?case
  proof cases
    case seen
    then show ?thesis using ci by (simp add: visit.simps [of bs st u])
  next
    case cyc
    then show ?thesis using ci by (simp add: visit.simps [of bs st u] cyc_inv_warn)
  next
    case missing
    then show ?thesis using ci by (simp add: visit.simps [of bs st u] cyc_inv_warn)
  next
    case root
    have "(u, u) \<notin> (parent_rel bs)\<^sup>+"
    proof
      assume "(u, u) \<in> (parent_rel bs)\<^sup>+"
      then obtain q where "(u, q) \<in> parent_rel bs" by (auto dest: tranclD)
      with root show False by (simp add: parent_rel_def parent_of_def)
    qed
    with ci show ?thesis
      using root unfolding cyc_inv_def by (auto simp: visit_found_root [of u st bs b])
  next
    case child
    note nv = child(1) and nt = child(2) and b = child(3) and par = child(4)
    define st1 where "st1 = st\<lparr>temp := insert u (temp st)\<rparr>"
    define st2 where "st2 = visit bs st1 p"
    have inv1: "sort_inv bs st1"
      unfolding st1_def using inv nv by (rule sort_inv_push_temp)
    have ci1: "cyc_inv bs st1" using ci by (simp add: cyc_inv_def st1_def)
    have ci2: "cyc_inv bs st2"
      unfolding st2_def using "1.IH" [OF nv nt b st1_def par inv1 ci1] .
    note props = visit_props [OF inv1, of p]
    have res: "visit bs st u = st2\<lparr>temp := temp st2 - {u},
        visited := insert u (visited st2), sorted := sorted st2 @ [b]\<rparr>"
      using nv nt b par by (simp add: visit_found_child [of u st bs b p] st1_def st2_def)
    show ?thesis
      unfolding cyc_inv_def
    proof (intro ballI impI)
      fix v
      assume v: "v \<in> visited (visit bs st u)" and cyc: "(v, v) \<in> (parent_rel bs)\<^sup>+"
      show "\<exists>c. CircularDependency c \<in> set (warnings (visit bs st u))
              \<and> (v, c) \<in> (parent_rel bs)\<^sup>* \<and> (c, v) \<in> (parent_rel bs)\<^sup>*"
      proof (cases "v = u")
        case False
        with v have "v \<in> visited st2" by (simp add: res)
        with ci2 cyc obtain c where "CircularDependency c \<in> set (warnings st2)"
          "(v, c) \<in> (parent_rel bs)\<^sup>*" "(c, v) \<in> (parent_rel bs)\<^sup>*"
          unfolding cyc_inv_def by blast
        then show ?thesis by (auto simp: res)
      next
        case True
        with cyc have "(u, u) \<in> (parent_rel bs)\<^sup>+" by simp
        then obtain q where uq: "(u, q) \<in> parent_rel bs" and qu: "(q, u) \<in> (parent_rel bs)\<^sup>*"
          by (auto dest: tranclD)
        from uq b par have "q = p" by (auto simp: parent_rel_def parent_of_def)
        with uq qu have up: "(u, p) \<in> parent_rel bs" and pu: "(p, u) \<in> (parent_rel bs)\<^sup>*"
          by simp_all
        from pu up have pp: "(p, p) \<in> (parent_rel bs)\<^sup>+" by (rule rtrancl_into_trancl1)
        then obtain z where "(p, z) \<in> parent_rel bs" by (auto dest: tranclD)
        then have pdom: "p \<in> dom (branchMap bs)" by (rule parent_rel_dom)
        have "\<exists>c. CircularDependency c \<in> set (warnings st2)
              \<and> (p, c) \<in> (parent_rel bs)\<^sup>* \<and> (c, p) \<in> (parent_rel bs)\<^sup>*"
        proof (cases "p \<in> temp st1")
          case inT: True
          from inv1 inT have "p \<notin> visited st1" by (auto simp: sort_inv_def)
          with inT have "st2 = st1\<lparr>warnings := warnings st1 @ [CircularDependency p]\<rparr>"
            by (simp add: st2_def visit.simps [of bs st1 p])
          then have "CircularDependency p \<in> set (warnings st2)" by simp
          then show ?thesis by blast
        next
          case notT: False
          with props pdom have "p \<in> visited st2" by (simp add: st2_def)
          with ci2 pp show ?thesis unfolding cyc_inv_def by blast
        qed
        then obtain c where w: "CircularDependency c \<in> set (warnings st2)"
          and pc: "(p, c) \<in> (parent_rel bs)\<^sup>*" and cp: "(c, p) \<in> (parent_rel bs)\<^sup>*"
          by blast
        from up pc have "(u, c) \<in> (parent_rel bs)\<^sup>*" by (rule converse_rtrancl_into_rtrancl)
        moreover from cp pu have "(c, u) \<in> (parent_rel bs)\<^sup>*" by (rule rtrancl_trans)
        ultimately show ?thesis using w True by (auto simp: res)
      qed
    qed
  qed
qed


lemma fold_visit_props:
  "sort_inv bs st \<Longrightarrow> temp st = {} \<Longrightarrow> set xs \<subseteq> set bs \<Longrightarrow>
     sort_inv bs (fold (\<lambda>b st. visit bs st (uuid b)) xs st)
     \<and> temp (fold (\<lambda>b st. visit bs st (uuid b)) xs st) = {}
     \<and> visited st \<union> uuid ` set xs \<subseteq> visited (fold (\<lambda>b st. visit bs st (uuid b)) xs st)"
proof (induction xs arbitrary: st)
  case Nil
  then show ?case by simp
next
  case (Cons a xs)
  note props = visit_props [OF Cons.prems(1), of "uuid a"]
  from Cons.prems(3) have "uuid a \<in> dom (branchMap bs)" by (auto simp: dom_branchMap)
  with props Cons.prems(2) have a: "uuid a \<in> visited (visit bs st (uuid a))" by simp
  from props Cons.prems(2) have t: "temp (visit bs st (uuid a)) = {}" by simp
  from props have i: "sort_inv bs (visit bs st (uuid a))" by simp
  from Cons.prems(3) have sub: "set xs \<subseteq> set bs" by simp
  from Cons.IH [OF i t sub] props a show ?case by auto
qed

lemma fold_visit_parents_before:
  "sort_inv bs st \<Longrightarrow> temp st = {} \<Longrightarrow> parents_before (sorted st) \<Longrightarrow>
   acyclic (parent_rel bs) \<Longrightarrow>
   \<forall>a p. (a, p) \<in> parent_rel bs \<longrightarrow> p \<in> dom (branchMap bs) \<Longrightarrow>
   parents_before (sorted (fold (\<lambda>b st. visit bs st (uuid b)) xs st))"
proof (induction xs arbitrary: st)
  case Nil
  then show ?case by simp
next
  case (Cons a xs)
  note props = visit_props [OF Cons.prems(1), of "uuid a"]
  from props Cons.prems(2) have t: "temp (visit bs st (uuid a)) = {}" by simp
  from props have i: "sort_inv bs (visit bs st (uuid a))" by simp
  have "\<forall>t\<in>temp st. (t, uuid a) \<in> (parent_rel bs)\<^sup>+" using Cons.prems(2) by simp
  from visit_parents_before [OF Cons.prems(1) Cons.prems(3) this Cons.prems(4) Cons.prems(5)]
  have pb: "parents_before (sorted (visit bs st (uuid a)))" .
  from Cons.IH [OF i t pb Cons.prems(4) Cons.prems(5)] show ?case by simp
qed

lemma fold_visit_cyc_inv:
  "sort_inv bs st \<Longrightarrow> cyc_inv bs st \<Longrightarrow>
   cyc_inv bs (fold (\<lambda>b st. visit bs st (uuid b)) xs st)"
proof (induction xs arbitrary: st)
  case Nil
  then show ?case by simp
next
  case (Cons a xs)
  from visit_props [OF Cons.prems(1), of "uuid a"]
  have i: "sort_inv bs (visit bs st (uuid a))" by simp
  from visit_cyc_inv [OF Cons.prems] have c: "cyc_inv bs (visit bs st (uuid a))" .
  from Cons.IH [OF i c] show ?case by simp
qed

definition sort_run :: "branch list \<Rightarrow> sort_state" where
  "sort_run branches = fold (\<lambda>b st. visit branches st (uuid b)) branches
                 \<lparr>visited = {}, temp = {}, sorted = [], warnings = []\<rparr>"

lemma sort_run_inv:
  "sort_inv bs (sort_run bs) \<and> uuid ` set (sorted (sort_run bs)) = uuid ` set bs"
proof -
  let ?init = "\<lparr>visited = {}, temp = {}, sorted = [], warnings = []\<rparr>"
  have i0: "sort_inv bs ?init" by (simp add: sort_inv_def)
  from fold_visit_props [OF i0, of bs]
  have inv: "sort_inv bs (sort_run bs)" and sup: "uuid ` set bs \<subseteq> visited (sort_run bs)"
    by (simp_all add: sort_run_def)
  from inv have v: "visited (sort_run bs) = uuid ` set (sorted (sort_run bs))"
    by (simp add: sort_inv_def)
  have "uuid ` set (sorted (sort_run bs)) \<subseteq> uuid ` set bs"
  proof
    fix u assume "u \<in> uuid ` set (sorted (sort_run bs))"
    then obtain b where b: "b \<in> set (sorted (sort_run bs))" and u: "u = uuid b" by blast
    with inv have "branchMap bs (uuid b) = Some b" by (simp add: sort_inv_def)
    from branchMap_Some [OF this] u show "u \<in> uuid ` set bs" by blast
  qed
  with sup v inv show ?thesis by auto
qed

lemma sort_fst: "fst (sortBranchesForRegistration bs) = sorted (sort_run bs)"
  by (simp add: sortBranchesForRegistration_def sort_run_def Let_def)

lemma sort_snd: "snd (sortBranchesForRegistration bs) = warnings (sort_run bs)"
  by (simp add: sortBranchesForRegistration_def sort_run_def Let_def)

lemma sort_subset: "set (fst (sortBranchesForRegistration bs)) \<subseteq> set bs"
proof
  fix b assume "b \<in> set (fst (sortBranchesForRegistration bs))"
  with sort_run_inv [of bs] have "branchMap bs (uuid b) = Some b"
    by (simp add: sort_fst sort_inv_def)
  from branchMap_Some [OF this] show "b \<in> set bs" by simp
qed

lemma sort_permutation:
  assumes d: "distinct (map uuid bs)"
  shows "mset (fst (sortBranchesForRegistration bs)) = mset bs"
proof -
  let ?out = "sorted (sort_run bs)"
  let ?f = "\<lambda>u. the (branchMap bs u)"
  from sort_run_inv [of bs] have dout: "distinct (map uuid ?out)"
    and look: "\<forall>b\<in>set ?out. branchMap bs (uuid b) = Some b"
    and same: "uuid ` set ?out = uuid ` set bs"
    by (simp_all add: sort_inv_def)
  have "set (map uuid ?out) = set (map uuid bs)" using same by simp
  with set_eq_iff_mset_eq_distinct [OF dout d]
  have ids: "mset (map uuid ?out) = mset (map uuid bs)" by blast
  have o: "map ?f (map uuid ?out) = ?out"
    using look by (simp add: map_idI)
  have i: "map ?f (map uuid bs) = bs"
    using d by (simp add: map_idI branchMap_distinct)
  have "mset ?out = image_mset ?f (mset (map uuid ?out))"
    using o by (metis mset_map)
  also have "\<dots> = image_mset ?f (mset (map uuid bs))" using ids by simp
  also have "\<dots> = mset bs" using i by (metis mset_map)
  finally show ?thesis by (simp add: sort_fst)
qed

text \<open>
  C1. For every list of branch records with pairwise-distinct uuids, acyclic parent
  links, and every non-null \<open>parent_uuid\<close> resolving to a record of the list,
  \<open>sortBranchesForRegistration\<close> returns a sequence in which every record with a
  non-null \<open>parent_uuid\<close> is preceded, strictly earlier, by the record with that uuid
  (its parent record, a record of the input); the sequence is a permutation of the input.
\<close>

theorem sortBranchesForRegistration_parents_first:
  assumes "distinct (map uuid branches)"
    and "acyclic (parent_links branches)"
    and "\<forall>b\<in>set branches. \<forall>p. parent_uuid b = Some p \<longrightarrow> p \<in> uuid ` set branches"
  shows "(\<forall>i<length (fst (sortBranchesForRegistration branches)). \<forall>p.
            parent_uuid (fst (sortBranchesForRegistration branches) ! i) = Some p \<longrightarrow>
            (\<exists>j<i. uuid (fst (sortBranchesForRegistration branches) ! j) = p
                  \<and> fst (sortBranchesForRegistration branches) ! j \<in> set branches))
         \<and> mset (fst (sortBranchesForRegistration branches)) = mset branches"
proof -
  let ?init = "\<lparr>visited = {}, temp = {}, sorted = [], warnings = []\<rparr>"
  have acyc: "acyclic (parent_rel branches)"
    using assms(2) parent_rel_subset_links by (rule acyclic_subset)
  have res: "\<forall>a p. (a, p) \<in> parent_rel branches \<longrightarrow> p \<in> dom (branchMap branches)"
  proof (intro allI impI)
    fix a p assume "(a, p) \<in> parent_rel branches"
    with parent_rel_subset_links have "(a, p) \<in> parent_links branches" by blast
    then obtain b where "b \<in> set branches" "parent_uuid b = Some p"
      by (auto simp: parent_links_def)
    with assms(3) show "p \<in> dom (branchMap branches)" by (auto simp: dom_branchMap)
  qed
  have i0: "sort_inv branches ?init" by (simp add: sort_inv_def)
  have p0: "parents_before (sorted ?init)" by (simp add: parents_before_def)
  from fold_visit_parents_before [OF i0 _ p0 acyc res, of branches]
  have pb: "parents_before (fst (sortBranchesForRegistration branches))"
    by (simp add: sort_fst sort_run_def)
  have "\<forall>i<length (fst (sortBranchesForRegistration branches)). \<forall>p.
            parent_uuid (fst (sortBranchesForRegistration branches) ! i) = Some p \<longrightarrow>
            (\<exists>j<i. uuid (fst (sortBranchesForRegistration branches) ! j) = p
                  \<and> fst (sortBranchesForRegistration branches) ! j \<in> set branches)"
  proof (intro allI impI)
    fix i p
    assume i: "i < length (fst (sortBranchesForRegistration branches))"
      and p: "parent_uuid (fst (sortBranchesForRegistration branches) ! i) = Some p"
    with pb obtain j where j: "j < i" "uuid (fst (sortBranchesForRegistration branches) ! j) = p"
      unfolding parents_before_def by blast
    with i have "fst (sortBranchesForRegistration branches) ! j
                   \<in> set (fst (sortBranchesForRegistration branches))" by simp
    with sort_subset have "fst (sortBranchesForRegistration branches) ! j \<in> set branches" by blast
    with j show "\<exists>j<i. uuid (fst (sortBranchesForRegistration branches) ! j) = p
                  \<and> fst (sortBranchesForRegistration branches) ! j \<in> set branches" by blast
  qed
  with sort_permutation [OF assms(1)] show ?thesis by blast
qed

text \<open>
  C2. For every input list with pairwise-distinct uuids (the list that
  \<open>rebuildStorageFromChats\<close> passes has them: its duplicate guard, lines 303-308, drops a
  record whose uuid was seen) and every uuid \<open>u\<close> on a parent cycle,
  \<open>sortBranchesForRegistration\<close> returns (\<open>visit\<close> is a total function: its recursion
  ends because \<open>temp\<close> grows inside the finite key set of \<open>branchMap\<close>, and no branch of
  it throws), warns of a circular dependency for an identifier \<open>c\<close> on the cycle of \<open>u\<close>
  (each of \<open>u\<close> and \<open>c\<close> is reached from the other along parent links), and its output
  is a permutation of the input.
\<close>

theorem sortBranchesForRegistration_cycle_reported:
  assumes "distinct (map uuid branches)"
    and "(u, u) \<in> (parent_links branches)\<^sup>+"
  shows "(\<exists>c. CircularDependency c \<in> set (snd (sortBranchesForRegistration branches))
              \<and> (u, c) \<in> (parent_links branches)\<^sup>*
              \<and> (c, u) \<in> (parent_links branches)\<^sup>*)
         \<and> mset (fst (sortBranchesForRegistration branches)) = mset branches"
proof -
  let ?init = "\<lparr>visited = {}, temp = {}, sorted = [], warnings = []\<rparr>"
  have eq: "parent_rel branches = parent_links branches"
    using parent_rel_subset_links parent_links_subset_rel [OF assms(1)] by blast
  have i0: "sort_inv branches ?init" by (simp add: sort_inv_def)
  have c0: "cyc_inv branches ?init" by (simp add: cyc_inv_def)
  from fold_visit_cyc_inv [OF i0 c0, of branches]
  have ci: "cyc_inv branches (sort_run branches)" by (simp add: sort_run_def)
  from assms(2) obtain z where "(u, z) \<in> parent_links branches" by (auto dest: tranclD)
  then have "u \<in> uuid ` set branches" by (auto simp: parent_links_def)
  with sort_run_inv [of branches] have "u \<in> visited (sort_run branches)"
    by (simp add: sort_inv_def)
  with ci assms(2) have "\<exists>c. CircularDependency c \<in> set (warnings (sort_run branches))
              \<and> (u, c) \<in> (parent_links branches)\<^sup>*
              \<and> (c, u) \<in> (parent_links branches)\<^sup>*"
    unfolding cyc_inv_def eq by blast
  with sort_permutation [OF assms(1)] show ?thesis by (simp add: sort_snd)
qed



text \<open>Example records: a branch record with the given uuid, parent and chat name.\<close>

definition branchData :: "string \<Rightarrow> string option \<Rightarrow> string \<Rightarrow> branch" where
  "branchData u p n = \<lparr>uuid = u, parent_uuid = p, root_uuid = u, character_id = ''avatar'',
         chat_name = n, branch_point = None, created_at = 0\<rparr>"

lemma parent_links_Nil: "parent_links [] = {}"
  by (simp add: parent_links_def)

lemma parent_links_Cons:
  "parent_links (b # bs) =
     (case parent_uuid b of None \<Rightarrow> {} | Some p \<Rightarrow> {(uuid b, p)}) \<union> parent_links bs"
  by (auto simp: parent_links_def split: option.splits)

lemma branchData_sel:
  "uuid (branchData u p n) = u" "parent_uuid (branchData u p n) = p"
  "chat_name (branchData u p n) = n"
  by (simp_all add: branchData_def)

lemma sort_example_chain:
  "fst (sortBranchesForRegistration
      [branchData ''B'' (Some ''A'') ''b'', branchData ''C'' (Some ''B'') ''c'',
       branchData ''A'' None ''a''])
   = [branchData ''A'' None ''a'', branchData ''B'' (Some ''A'') ''b'',
      branchData ''C'' (Some ''B'') ''c'']"
  by code_simp

theorem sortBranchesForRegistration_parents_first_witness:
  "(\<exists>j<2. uuid (fst (sortBranchesForRegistration
      [branchData ''B'' (Some ''A'') ''b'', branchData ''C'' (Some ''B'') ''c'',
       branchData ''A'' None ''a'']) ! j) = ''B'')
   \<and> mset (fst (sortBranchesForRegistration
      [branchData ''B'' (Some ''A'') ''b'', branchData ''C'' (Some ''B'') ''c'',
       branchData ''A'' None ''a'']))
     = mset [branchData ''B'' (Some ''A'') ''b'', branchData ''C'' (Some ''B'') ''c'',
       branchData ''A'' None ''a'']"
proof -
  let ?L = "[branchData ''B'' (Some ''A'') ''b'', branchData ''C'' (Some ''B'') ''c'',
       branchData ''A'' None ''a'']"
  have h1: "distinct (map uuid ?L)" by (simp add: branchData_sel)
  have h2: "acyclic (parent_links ?L)"
    by (rule acyclicI_order [where f = "\<lambda>u. if u = ''A'' then 0 else if u = ''B'' then 1 else (2::nat)"])
       (auto simp: parent_links_Nil parent_links_Cons branchData_sel)
  have h3: "\<forall>b\<in>set ?L. \<forall>p. parent_uuid b = Some p \<longrightarrow> p \<in> uuid ` set ?L"
    by (simp add: branchData_sel)
  note T = sortBranchesForRegistration_parents_first [OF h1 h2 h3]
  from T have perm: "mset (fst (sortBranchesForRegistration ?L)) = mset ?L" by blast
  from T have "\<forall>i<length (fst (sortBranchesForRegistration ?L)). \<forall>p.
            parent_uuid (fst (sortBranchesForRegistration ?L) ! i) = Some p \<longrightarrow>
            (\<exists>j<i. uuid (fst (sortBranchesForRegistration ?L) ! j) = p
                  \<and> fst (sortBranchesForRegistration ?L) ! j \<in> set ?L)" by blast
  then have "2 < length (fst (sortBranchesForRegistration ?L)) \<longrightarrow>
            parent_uuid (fst (sortBranchesForRegistration ?L) ! 2) = Some ''B'' \<longrightarrow>
            (\<exists>j<2. uuid (fst (sortBranchesForRegistration ?L) ! j) = ''B''
                  \<and> fst (sortBranchesForRegistration ?L) ! j \<in> set ?L)" by blast
  moreover have "2 < length (fst (sortBranchesForRegistration ?L))"
    by (simp add: sort_example_chain)
  moreover have "parent_uuid (fst (sortBranchesForRegistration ?L) ! 2) = Some ''B''"
    by (simp add: sort_example_chain branchData_sel)
  ultimately have "\<exists>j<2. uuid (fst (sortBranchesForRegistration ?L) ! j) = ''B''" by blast
  with perm show ?thesis by blast
qed

lemma sort_example_cycle:
  "sortBranchesForRegistration
      [branchData ''A'' (Some ''B'') ''a'', branchData ''B'' (Some ''A'') ''b'']
   = ([branchData ''B'' (Some ''A'') ''b'', branchData ''A'' (Some ''B'') ''a''],
      [CircularDependency ''A''])"
  by code_simp

theorem sortBranchesForRegistration_cycle_witness:
  "(\<exists>c. CircularDependency c \<in> set (snd (sortBranchesForRegistration
        [branchData ''A'' (Some ''B'') ''a'', branchData ''B'' (Some ''A'') ''b'']))
       \<and> (''A'', c) \<in> (parent_links
        [branchData ''A'' (Some ''B'') ''a'', branchData ''B'' (Some ''A'') ''b''])\<^sup>*
       \<and> (c, ''A'') \<in> (parent_links
        [branchData ''A'' (Some ''B'') ''a'', branchData ''B'' (Some ''A'') ''b''])\<^sup>*)
   \<and> mset (fst (sortBranchesForRegistration
        [branchData ''A'' (Some ''B'') ''a'', branchData ''B'' (Some ''A'') ''b'']))
     = mset [branchData ''A'' (Some ''B'') ''a'', branchData ''B'' (Some ''A'') ''b'']"
proof -
  let ?L = "[branchData ''A'' (Some ''B'') ''a'', branchData ''B'' (Some ''A'') ''b'']"
  have h1: "distinct (map uuid ?L)" by (simp add: branchData_sel)
  have "(''A'', ''B'') \<in> parent_links ?L" "(''B'', ''A'') \<in> parent_links ?L"
    by (simp_all add: parent_links_Nil parent_links_Cons branchData_sel)
  then have h2: "(''A'', ''A'') \<in> (parent_links ?L)\<^sup>+" by (rule trancl.intros(2) [OF r_into_trancl])
  show ?thesis using sortBranchesForRegistration_cycle_reported [OF h1 h2] .
qed

text \<open>
  The sequencer relies on the distinct uuids that the duplicate guard establishes: of two
  records with one uuid, \<open>branchMap\<close> keeps the last only.
\<close>

lemma sortBranchesForRegistration_duplicate_uuid:
  "(''A'', ''A'') \<in> (parent_links
        [branchData ''A'' (Some ''B'') ''first'', branchData ''B'' (Some ''A'') ''b'',
         branchData ''A'' (Some ''B'') ''second''])\<^sup>+
   \<and> fst (sortBranchesForRegistration
        [branchData ''A'' (Some ''B'') ''first'', branchData ''B'' (Some ''A'') ''b'',
         branchData ''A'' (Some ''B'') ''second''])
     = [branchData ''B'' (Some ''A'') ''b'', branchData ''A'' (Some ''B'') ''second'']
   \<and> branchData ''A'' (Some ''B'') ''first'' \<notin> set (fst (sortBranchesForRegistration
        [branchData ''A'' (Some ''B'') ''first'', branchData ''B'' (Some ''A'') ''b'',
         branchData ''A'' (Some ''B'') ''second'']))"
proof -
  let ?L = "[branchData ''A'' (Some ''B'') ''first'', branchData ''B'' (Some ''A'') ''b'',
         branchData ''A'' (Some ''B'') ''second'']"
  have "(''A'', ''B'') \<in> parent_links ?L" "(''B'', ''A'') \<in> parent_links ?L"
    by (simp_all add: parent_links_Nil parent_links_Cons branchData_sel)
  then have c: "(''A'', ''A'') \<in> (parent_links ?L)\<^sup>+" by (rule trancl.intros(2) [OF r_into_trancl])
  have out: "fst (sortBranchesForRegistration ?L)
     = [branchData ''B'' (Some ''A'') ''b'', branchData ''A'' (Some ''B'') ''second'']"
    by code_simp
  have "branchData ''A'' (Some ''B'') ''first'' \<notin> set (fst (sortBranchesForRegistration ?L))"
    unfolding out by (simp add: branchData_def)
  with c out show ?thesis by blast
qed

section \<open>ChatRenameHandler.validateName\<close>

text \<open>
  ChatTreeView.js, lines 1124-1214. \<open>validateName\<close> reads of a node its \<open>id\<close>, its \<open>name\<close>
  and its \<open>children\<close>, recursively, so the forest it is given is a list of rose trees.
  The handler owns the regular expression \<open>INVALID_CHARS = /[<>:"/\\|?*]/g\<close>; a regular
  expression with the \<open>g\<close> flag keeps the position \<open>lastIndex\<close> between calls of \<open>test\<close>,
  and that position is the one field of the handler the validation reads and writes.
  \<open>RESERVED_NAMES\<close> has no \<open>g\<close> flag and is stateless. A string is a list of code units
  (here of the Latin-1 range); \<open>trim\<close> strips the white space of that range.
\<close>


datatype tree_node = TreeNode (node_id: string) (node_name: string) (node_children: "tree_node list")

record rename_handler =
  lastIndex :: nat

datatype validation = Valid | Invalid string

text \<open>\<open>String.prototype.trim\<close>: tab, line feed, vertical tab, form feed, carriage return,
  space and no-break space are the white space of the range.\<close>

definition js_whitespace :: "char \<Rightarrow> bool" where
  "js_whitespace c = ((of_char c :: nat) \<in> {9, 10, 11, 12, 13, 32, 160})"

definition js_trim :: "string \<Rightarrow> string" where
  "js_trim s = rev (dropWhile js_whitespace (rev (dropWhile js_whitespace s)))"

definition MAX_FILENAME_LENGTH :: nat where
  "MAX_FILENAME_LENGTH = 255"

definition invalid_char :: "char \<Rightarrow> bool" where
  "invalid_char c = ((of_char c :: nat) \<in> {60, 62, 58, 34, 47, 92, 124, 63, 42})"

text \<open>
  \<open>INVALID_CHARS.test(s)\<close>: the search starts at \<open>lastIndex\<close>; a match at index \<open>i\<close> sets
  \<open>lastIndex\<close> to \<open>i + 1\<close> and yields true; no match, or a \<open>lastIndex\<close> beyond the end of
  the string, resets \<open>lastIndex\<close> to 0 and yields false.
\<close>

fun match_index :: "(char \<Rightarrow> bool) \<Rightarrow> string \<Rightarrow> nat option" where
  "match_index P [] = None"
| "match_index P (c # cs) = (if P c then Some 0 else map_option Suc (match_index P cs))"

definition INVALID_CHARS_test :: "rename_handler \<Rightarrow> string \<Rightarrow> bool \<times> rename_handler" where
  "INVALID_CHARS_test h s =
     (if lastIndex h > length s then (False, h\<lparr>lastIndex := 0\<rparr>)
      else case match_index invalid_char (drop (lastIndex h) s) of
             None \<Rightarrow> (False, h\<lparr>lastIndex := 0\<rparr>)
           | Some k \<Rightarrow> (True, h\<lparr>lastIndex := lastIndex h + k + 1\<rparr>))"

text \<open>
  \<open>RESERVED_NAMES = /^(CON|PRN|AUX|NUL|COM[1-9]|LPT[1-9])$/i\<close>: with the \<open>i\<close> flag a
  character matches a letter of the pattern when their upper-case forms agree, and a
  character outside ASCII never matches an ASCII letter.
\<close>

definition ascii_upper :: "char \<Rightarrow> char" where
  "ascii_upper c = (if 97 \<le> (of_char c :: nat) \<and> (of_char c :: nat) \<le> 122
                    then char_of ((of_char c :: nat) - 32) else c)"

definition RESERVED_NAMES_test :: "string \<Rightarrow> bool" where
  "RESERVED_NAMES_test s =
     (let u = map ascii_upper s in
        u \<in> set [''CON'', ''PRN'', ''AUX'', ''NUL'']
        \<or> (length u = 4 \<and> take 3 u \<in> set [''COM'', ''LPT''] \<and> u ! 3 \<in> set ''123456789''))"

fun checkNodeForDuplicate :: "tree_node \<Rightarrow> string \<Rightarrow> string option \<Rightarrow> bool" where
  "checkNodeForDuplicate (TreeNode i n cs) newName excludeUuid =
     (if Some i \<noteq> excludeUuid \<and> n = newName then True
      else if cs \<noteq> [] then list_ex (\<lambda>child. checkNodeForDuplicate child newName excludeUuid) cs
      else False)"

fun hasDuplicateName :: "string \<Rightarrow> tree_node list \<Rightarrow> string option \<Rightarrow> bool" where
  "hasDuplicateName newName [] excludeUuid = False"
| "hasDuplicateName newName (root # treeRoots) excludeUuid =
     (if checkNodeForDuplicate root newName excludeUuid then True
      else hasDuplicateName newName treeRoots excludeUuid)"

definition validateName ::
  "rename_handler \<Rightarrow> string \<Rightarrow> tree_node list \<Rightarrow> string option \<Rightarrow> validation \<times> rename_handler"
where
  "validateName h newName treeRoots excludeUuid =
     (if newName = [] \<or> length (js_trim newName) = 0
      then (Invalid ''Chat name cannot be empty'', h)
      else let trimmedName = js_trim newName in
        if length trimmedName > MAX_FILENAME_LENGTH
        then (Invalid ''Name too long (max 255 characters)'', h)
        else case INVALID_CHARS_test h trimmedName of
          (True, h') \<Rightarrow> (Invalid (''Name contains invalid characters: < > : '' @ [char_of (34 :: nat)]
                                   @ '' / '' @ [char_of (92 :: nat)] @ '' | ? *''), h')
        | (False, h') \<Rightarrow>
            if RESERVED_NAMES_test trimmedName
            then (Invalid ''Name is reserved by the system'', h')
            else if hasDuplicateName trimmedName treeRoots excludeUuid
            then (Invalid ''A chat with this name already exists'', h')
            else (Valid, h'))"


text \<open>
  The words of the specification: the nodes of the forest, a name that is well formed
  (not empty, at most 255 long, without forbidden character, not reserved), and a name
  borne by a node other than the excluded one.
\<close>

fun nodes_of :: "tree_node \<Rightarrow> tree_node list" where
  "nodes_of (TreeNode i n cs) = TreeNode i n cs # concat (map nodes_of cs)"

definition forest_nodes :: "tree_node list \<Rightarrow> tree_node set" where
  "forest_nodes treeRoots = (\<Union>r\<in>set treeRoots. set (nodes_of r))"

definition well_formed_name :: "string \<Rightarrow> bool" where
  "well_formed_name t =
     (t \<noteq> [] \<and> length t \<le> MAX_FILENAME_LENGTH \<and> \<not> list_ex invalid_char t
      \<and> \<not> RESERVED_NAMES_test t)"

definition name_taken :: "string \<Rightarrow> tree_node list \<Rightarrow> string option \<Rightarrow> bool" where
  "name_taken t treeRoots excludeUuid =
     (\<exists>x\<in>forest_nodes treeRoots. Some (node_id x) \<noteq> excludeUuid \<and> node_name x = t)"

lemma checkNodeForDuplicate_iff:
  "checkNodeForDuplicate t nm ex \<longleftrightarrow> (\<exists>x\<in>set (nodes_of t). Some (node_id x) \<noteq> ex \<and> node_name x = nm)"
proof (induction t)
  case (TreeNode i n cs)
  show ?case
  proof (cases "Some i \<noteq> ex \<and> n = nm")
    case True
    then show ?thesis by auto
  next
    case False
    have "list_ex (\<lambda>child. checkNodeForDuplicate child nm ex) cs
          \<longleftrightarrow> (\<exists>c\<in>set cs. \<exists>x\<in>set (nodes_of c). Some (node_id x) \<noteq> ex \<and> node_name x = nm)"
      using TreeNode.IH by (simp add: list_ex_iff)
    with False show ?thesis by (cases cs) auto
  qed
qed

lemma hasDuplicateName_iff:
  "hasDuplicateName nm treeRoots ex \<longleftrightarrow> name_taken nm treeRoots ex"
  by (induction treeRoots) (auto simp: name_taken_def forest_nodes_def checkNodeForDuplicate_iff)

lemma match_index_None: "match_index P s = None \<longleftrightarrow> \<not> list_ex P s"
  by (induction s) auto

lemma match_index_Some: "match_index P s = Some k \<Longrightarrow> k < length s \<and> P (s ! k)"
proof (induction s arbitrary: k)
  case Nil
  then show ?case by simp
next
  case (Cons c cs)
  then show ?case by (cases "P c") auto
qed

lemma INVALID_CHARS_test_fresh:
  "lastIndex h = 0 \<Longrightarrow> fst (INVALID_CHARS_test h s) \<longleftrightarrow> list_ex invalid_char s"
proof (cases "match_index invalid_char s")
  case None
  moreover assume "lastIndex h = 0"
  ultimately show ?thesis
    using match_index_None [of invalid_char s] by (simp add: INVALID_CHARS_test_def)
next
  case (Some k)
  then have "list_ex invalid_char s"
    using match_index_None [of invalid_char s] by simp
  moreover assume "lastIndex h = 0"
  ultimately show ?thesis using Some by (simp add: INVALID_CHARS_test_def)
qed

lemma INVALID_CHARS_test_clean:
  "\<not> list_ex invalid_char s \<Longrightarrow> INVALID_CHARS_test h s = (False, h\<lparr>lastIndex := 0\<rparr>)"
proof -
  assume clean: "\<not> list_ex invalid_char s"
  have "\<not> list_ex invalid_char (drop (lastIndex h) s)"
    using clean by (auto simp: list_ex_iff dest: in_set_dropD)
  then have "match_index invalid_char (drop (lastIndex h) s) = None"
    by (simp add: match_index_None)
  then show ?thesis by (simp add: INVALID_CHARS_test_def)
qed

text \<open>
  What \<open>validateName\<close> does on a handler whose \<open>INVALID_CHARS.lastIndex\<close> is 0 (a handler
  that has not yet rejected a name for its characters): it accepts exactly the names that
  are well formed after trimming and borne by no node other than the excluded one.
\<close>

lemma validateName_fresh:
  assumes "lastIndex h = 0"
  shows "fst (validateName h newName treeRoots excludeUuid) = Valid
         \<longleftrightarrow> well_formed_name (js_trim newName)
             \<and> \<not> name_taken (js_trim newName) treeRoots excludeUuid"
proof -
  obtain r h' where t: "INVALID_CHARS_test h (js_trim newName) = (r, h')"
    by (cases "INVALID_CHARS_test h (js_trim newName)")
  with INVALID_CHARS_test_fresh [OF assms, of "js_trim newName"]
  have r: "r \<longleftrightarrow> list_ex invalid_char (js_trim newName)" by simp
  have e: "newName = [] \<Longrightarrow> js_trim newName = []" by (simp add: js_trim_def)
  show ?thesis
    using t r e
    by (auto simp: validateName_def well_formed_name_def hasDuplicateName_iff Let_def)
qed

text \<open>
  In every state of the handler, a name that is empty after trimming, too long, reserved or
  already taken is rejected, and a well-formed name that is not taken is accepted: only the
  rejection of forbidden characters depends on \<open>lastIndex\<close>.
\<close>

lemma validateName_accepts:
  assumes "well_formed_name (js_trim newName)"
    and "\<not> name_taken (js_trim newName) treeRoots excludeUuid"
  shows "validateName h newName treeRoots excludeUuid = (Valid, h\<lparr>lastIndex := 0\<rparr>)"
proof -
  from assms(1) have c: "\<not> list_ex invalid_char (js_trim newName)"
    and ne: "js_trim newName \<noteq> []" by (simp_all add: well_formed_name_def)
  from ne have "newName \<noteq> []" by (auto simp: js_trim_def)
  with assms ne show ?thesis
    by (simp add: validateName_def INVALID_CHARS_test_clean [OF c] well_formed_name_def
        hasDuplicateName_iff Let_def)
qed

lemma validateName_rejects:
  assumes "js_trim newName = [] \<or> length (js_trim newName) > MAX_FILENAME_LENGTH
           \<or> RESERVED_NAMES_test (js_trim newName)
           \<or> name_taken (js_trim newName) treeRoots excludeUuid"
  shows "fst (validateName h newName treeRoots excludeUuid) \<noteq> Valid"
  using assms
  by (cases "INVALID_CHARS_test h (js_trim newName)"; cases "fst (INVALID_CHARS_test h (js_trim newName))")
     (auto simp: validateName_def hasDuplicateName_iff Let_def)

text \<open>
  C10. The claim: two successive invocations of \<open>validateName\<close> on the same handler with
  identical arguments return the same result. The code at the name \<open>a:b\<close>: the first call
  rejects it and leaves \<open>lastIndex = 2\<close>; the second call, on the handler as the first
  left it, searches from index 2, finds no forbidden character and accepts the name.
\<close>

theorem validateName_second_call_accepts_forbidden:
  "fst (validateName \<lparr>lastIndex = 0\<rparr> ''a:b'' [] None) \<noteq> Valid
   \<and> fst (validateName (snd (validateName \<lparr>lastIndex = 0\<rparr> ''a:b'' [] None)) ''a:b'' [] None)
       = Valid"
  by code_simp

text \<open>
  C6. The claim: \<open>validateName\<close> fails for every name that contains a forbidden character.
  The code after it has rejected \<open>x:\<close> (which leaves \<open>lastIndex = 2\<close>): the name \<open>:y\<close>,
  whose forbidden character stands before index 2, is accepted. The other rejections and
  the acceptance of a well-formed name hold in every state (\<open>validateName_rejects\<close>,
  \<open>validateName_accepts\<close>), and all of the claim holds on a handler with
  \<open>lastIndex = 0\<close> (\<open>validateName_fresh\<close>).
\<close>

theorem validateName_stale_lastIndex_accepts_forbidden:
  "snd (validateName \<lparr>lastIndex = 0\<rparr> ''x:'' [] None) = \<lparr>lastIndex = 2\<rparr>
   \<and> list_ex invalid_char (js_trim '':y'')
   \<and> validateName \<lparr>lastIndex = 2\<rparr> '':y'' [] None = (Valid, \<lparr>lastIndex = 0\<rparr>)"
  by code_simp

section \<open>ChatTreeView: the node map and the current node\<close>

text \<open>
  ChatTreeView.js. The nodes of the view are JavaScript objects that refer to each other
  through \<open>parent\<close> and \<open>children\<close>, so they live in a heap: a node is referred to by its
  index in \<open>heap\<close>, \<open>new\<close> appends to the heap, and a write to a field of a node is an
  update at its index. The field \<open>id\<close> is \<open>id_node\<close> here (\<open>id\<close> is the identity function of
  HOL); the field \<open>data\<close>, which no modelled function reads, is left out. \<open>nodeMap\<close> is a
  JavaScript \<open>Map\<close> from uuid to node: a list of entries in insertion order, where \<open>set\<close>
  on a present key replaces the value in place. \<open>currentChatUUID\<close> is built with
  \<open>value || null\<close>, so the truthiness test on it is the test for \<open>Some\<close>.
\<close>


record inode =
  id_node :: string
  name :: string
  parentId :: "string option"
  children :: "nat list"
  parent :: "nat option"

record view =
  heap :: "inode list"
  nodeMap :: "(string \<times> nat) list"
  allTreeRoots :: "nat list"
  treeRoots :: "nat list"
  currentChatFile :: string
  currentChatUUID :: "string option"
  currentNode :: "nat option"
  currentRootNode :: "nat option"

fun map_set :: "(string \<times> nat) list \<Rightarrow> string \<Rightarrow> nat \<Rightarrow> (string \<times> nat) list" where
  "map_set [] k v = [(k, v)]"
| "map_set ((k', v') # m) k v = (if k' = k then (k, v) # m else (k', v') # map_set m k v)"

definition map_get :: "(string \<times> nat) list \<Rightarrow> string \<Rightarrow> nat option" where
  "map_get m k = map_of m k"

definition js_toLowerCase :: "string \<Rightarrow> string" where
  "js_toLowerCase s =
     map (\<lambda>c. let n = (of_char c :: nat) in
               if (65 \<le> n \<and> n \<le> 90) \<or> (192 \<le> n \<and> n \<le> 222 \<and> n \<noteq> 215)
               then char_of (n + 32) else c) s"

fun js_includes :: "string \<Rightarrow> string \<Rightarrow> bool" where
  "js_includes [] t = (t = [])"
| "js_includes (c # cs) t = (take (length t) (c # cs) = t \<or> js_includes cs t)"

lemma js_includes_iff: "js_includes s t \<longleftrightarrow> (\<exists>p q. s = p @ t @ q)"
proof (induction s)
  case Nil
  then show ?case by auto
next
  case (Cons c cs)
  have "take (length t) (c # cs) = t \<longleftrightarrow> (\<exists>q. c # cs = t @ q)"
    by (metis append_eq_conv_conj append_take_drop_id)
  moreover have "(\<exists>p q. c # cs = p @ t @ q)
      \<longleftrightarrow> (\<exists>q. c # cs = t @ q) \<or> (\<exists>p q. cs = p @ t @ q)"
  proof
    assume "\<exists>p q. c # cs = p @ t @ q"
    then obtain p q where pq: "c # cs = p @ t @ q" by blast
    show "(\<exists>q. c # cs = t @ q) \<or> (\<exists>p q. cs = p @ t @ q)"
    proof (cases p)
      case Nil
      with pq show ?thesis by auto
    next
      case (Cons a p')
      with pq have "cs = p' @ t @ q" by simp
      then show ?thesis by blast
    qed
  next
    assume "(\<exists>q. c # cs = t @ q) \<or> (\<exists>p q. cs = p @ t @ q)"
    then show "\<exists>p q. c # cs = p @ t @ q"
    proof
      assume "\<exists>q. c # cs = t @ q"
      then obtain q where "c # cs = [] @ t @ q" by auto
      then show ?thesis by blast
    next
      assume "\<exists>p q. cs = p @ t @ q"
      then obtain p q where "c # cs = (c # p) @ t @ q" by auto
      then show ?thesis by blast
    qed
  qed
  ultimately show ?case using Cons.IH by simp
qed

text \<open>
  \<open>findCurrentNode\<close>, ChatTreeView.js, lines 263-335. Each of the three loops runs over
  the node map in its iteration order and stops at the first node that matches; the
  source's messages to the console are not modelled.
\<close>

fun exact_name_loop :: "inode list \<Rightarrow> (string \<times> nat) list \<Rightarrow> string \<Rightarrow> nat option" where
  "exact_name_loop h [] file = None"
| "exact_name_loop h ((u, node) # rest) file =
     (if name (h ! node) = file then Some node else exact_name_loop h rest file)"

fun case_insensitive_loop :: "inode list \<Rightarrow> (string \<times> nat) list \<Rightarrow> string \<Rightarrow> nat option" where
  "case_insensitive_loop h [] currentFileLower = None"
| "case_insensitive_loop h ((u, node) # rest) currentFileLower =
     (let nodeNameLower = js_trim (js_toLowerCase (name (h ! node))) in
        if nodeNameLower = currentFileLower then Some node
        else case_insensitive_loop h rest currentFileLower)"

fun partial_match_loop :: "inode list \<Rightarrow> (string \<times> nat) list \<Rightarrow> string \<Rightarrow> nat option" where
  "partial_match_loop h [] currentFileLower = None"
| "partial_match_loop h ((u, node) # rest) currentFileLower =
     (let nodeNameLower = js_trim (js_toLowerCase (name (h ! node))) in
        if js_includes nodeNameLower currentFileLower \<or> js_includes currentFileLower nodeNameLower
        then Some node
        else partial_match_loop h rest currentFileLower)"

definition findCurrentNode :: "view \<Rightarrow> view" where
  "findCurrentNode st0 =
     (let st = st0\<lparr>currentNode := None\<rparr> in
      case (case currentChatUUID st of
              Some u \<Rightarrow> map_get (nodeMap st) u
            | None \<Rightarrow> None) of
        Some nodeByUUID \<Rightarrow> st\<lparr>currentNode := Some nodeByUUID\<rparr>
      | None \<Rightarrow>
         (case exact_name_loop (heap st) (nodeMap st) (currentChatFile st) of
            Some node \<Rightarrow> st\<lparr>currentNode := Some node\<rparr>
          | None \<Rightarrow>
             (case (if currentNode st = None
                    then case_insensitive_loop (heap st) (nodeMap st)
                           (js_trim (js_toLowerCase (currentChatFile st)))
                    else None) of
                Some node \<Rightarrow> st\<lparr>currentNode := Some node\<rparr>
              | None \<Rightarrow>
                 (let st1 = (if currentNode st = None
                             then st\<lparr>currentNode :=
                                    partial_match_loop (heap st) (nodeMap st)
                                      (js_trim (js_toLowerCase (currentChatFile st)))\<rparr>
                             else st)
                  in if currentNode st1 = None
                     then (case nodeMap st1 of
                             [] \<Rightarrow> st1
                           | (u, firstNode) # rest \<Rightarrow> st1\<lparr>currentNode := Some firstNode\<rparr>)
                     else st1))))"


text \<open>
  The words of the specification: the fallback chain tries, in order, the exact match of
  the identifier, the exact match of the name, the match of the names lower-cased and
  trimmed, the substring match in either direction (of the lower-cased, trimmed names),
  and at last the first node of the map; the first success is the result.
\<close>

fun first_success :: "'a option list \<Rightarrow> 'a option" where
  "first_success [] = None"
| "first_success (Some x # rest) = Some x"
| "first_success (None # rest) = first_success rest"

definition first_node_where :: "(nat \<Rightarrow> bool) \<Rightarrow> (string \<times> nat) list \<Rightarrow> nat option" where
  "first_node_where P m = map_option snd (find (\<lambda>(u, node). P node) m)"

definition names_match_exactly :: "inode list \<Rightarrow> string \<Rightarrow> nat \<Rightarrow> bool" where
  "names_match_exactly h file node = (name (h ! node) = file)"

definition names_match_ignoring_case :: "inode list \<Rightarrow> string \<Rightarrow> nat \<Rightarrow> bool" where
  "names_match_ignoring_case h file node =
     (js_trim (js_toLowerCase (name (h ! node))) = js_trim (js_toLowerCase file))"

definition names_match_partially :: "inode list \<Rightarrow> string \<Rightarrow> nat \<Rightarrow> bool" where
  "names_match_partially h file node =
     (js_includes (js_trim (js_toLowerCase (name (h ! node)))) (js_trim (js_toLowerCase file))
      \<or> js_includes (js_trim (js_toLowerCase file)) (js_trim (js_toLowerCase (name (h ! node)))))"

definition locate_current ::
  "inode list \<Rightarrow> (string \<times> nat) list \<Rightarrow> string option \<Rightarrow> string \<Rightarrow> nat option"
where
  "locate_current h m current_uuid current_name =
     first_success
       [case current_uuid of Some u \<Rightarrow> map_of m u | None \<Rightarrow> None,
        first_node_where (names_match_exactly h current_name) m,
        first_node_where (names_match_ignoring_case h current_name) m,
        first_node_where (names_match_partially h current_name) m,
        case m of [] \<Rightarrow> None | (u, node) # rest \<Rightarrow> Some node]"

lemma exact_name_loop_find:
  "exact_name_loop h m file = first_node_where (names_match_exactly h file) m"
  by (induction m) (auto simp: first_node_where_def names_match_exactly_def)

lemma case_insensitive_loop_find:
  "case_insensitive_loop h m (js_trim (js_toLowerCase file))
   = first_node_where (names_match_ignoring_case h file) m"
  by (induction m) (auto simp: first_node_where_def names_match_ignoring_case_def Let_def)

lemma partial_match_loop_find:
  "partial_match_loop h m (js_trim (js_toLowerCase file))
   = first_node_where (names_match_partially h file) m"
proof (induction m)
  case Nil
  show ?case by (simp add: first_node_where_def)
next
  case (Cons e m)
  obtain u node where e: "e = (u, node)" by (cases e)
  show ?case
  proof (cases "names_match_partially h file node")
    case True
    then show ?thesis
      unfolding e by (simp add: first_node_where_def names_match_partially_def Let_def)
  next
    case False
    with Cons.IH show ?thesis
      unfolding e by (simp add: first_node_where_def names_match_partially_def Let_def)
  qed
qed

lemma findCurrentNode_result:
  "findCurrentNode st = st\<lparr>currentNode :=
      locate_current (heap st) (nodeMap st) (currentChatUUID st) (currentChatFile st)\<rparr>"
proof -
  let ?s1 = "case currentChatUUID st of None \<Rightarrow> None | Some u \<Rightarrow> map_of (nodeMap st) u"
  let ?s2 = "first_node_where (names_match_exactly (heap st) (currentChatFile st)) (nodeMap st)"
  let ?s3 = "first_node_where (names_match_ignoring_case (heap st) (currentChatFile st)) (nodeMap st)"
  let ?s4 = "first_node_where (names_match_partially (heap st) (currentChatFile st)) (nodeMap st)"
  note defs = findCurrentNode_def locate_current_def map_get_def Let_def
    exact_name_loop_find case_insensitive_loop_find partial_match_loop_find
  consider (by_uuid) n where "?s1 = Some n"
    | (by_name) n where "?s1 = None" "?s2 = Some n"
    | (by_case) n where "?s1 = None" "?s2 = None" "?s3 = Some n"
    | (by_part) n where "?s1 = None" "?s2 = None" "?s3 = None" "?s4 = Some n"
    | (fallback) "?s1 = None" "?s2 = None" "?s3 = None" "?s4 = None"
    by (cases ?s1; cases ?s2; cases ?s3; cases ?s4) auto
  then show ?thesis
  proof cases
    case by_uuid
    then show ?thesis by (simp add: defs cong: option.case_cong)
  next
    case by_name
    then show ?thesis by (simp add: defs cong: option.case_cong)
  next
    case by_case
    then show ?thesis by (simp add: defs cong: option.case_cong)
  next
    case by_part
    then show ?thesis by (simp add: defs cong: option.case_cong)
  next
    case fallback
    then show ?thesis by (cases "nodeMap st") (simp_all add: defs split: prod.split cong: option.case_cong)
  qed
qed

lemma first_success_None: "first_success xs = None \<longleftrightarrow> (\<forall>x\<in>set xs. x = None)"
  by (induction xs rule: first_success.induct) simp_all

lemma locate_current_None:
  "locate_current h m u f = None \<longleftrightarrow> m = []"
proof (cases m)
  case Nil
  then show ?thesis
    by (cases u) (simp_all add: locate_current_def first_node_where_def)
next
  case (Cons e rest)
  obtain k node where "e = (k, node)" by (cases e)
  with Cons have "locate_current h m u f \<noteq> None"
    unfolding locate_current_def first_success_None by simp
  with Cons show ?thesis by simp
qed

text \<open>
  C4. For every node map and current chat (identifier and display name),
  \<open>findCurrentNode\<close> sets the current node to the first success of the chain: exact uuid
  match, exact name match, case-insensitive trimmed name match, substring match in either
  direction, and, when none of these matches and the map is not empty, the first node in
  the map's iteration order. The current node is null exactly when the map is empty. No
  other field of the view changes.
\<close>

theorem findCurrentNode_fallback_chain:
  "findCurrentNode st = st\<lparr>currentNode :=
      locate_current (heap st) (nodeMap st) (currentChatUUID st) (currentChatFile st)\<rparr>
   \<and> (currentNode (findCurrentNode st) = None \<longleftrightarrow> nodeMap st = [])"
  by (simp add: findCurrentNode_result locate_current_None)



section \<open>buildNodeMapFromTree and isolateActiveTree\<close>

text \<open>
  ChatTreeView.js, lines 226-261 and 337-353. The plugin delivers the forest as nested
  records \<open>{uuid, chat_name, parent_uuid, children}\<close>. \<open>processNode\<close> allocates the internal
  node, enters it in the node map and then processes the children, pushing each child on
  the node's \<open>children\<close> once the child's own subtree is done. The roots are then
  deduplicated by \<open>id\<close>, the first root of an \<open>id\<close> being kept.
\<close>

datatype plugin_node =
  PluginNode (p_uuid: string) (p_chat_name: string) (p_parent_uuid: "string option")
    (p_children: "plugin_node list")

fun processNode :: "plugin_node \<Rightarrow> nat option \<Rightarrow> view \<Rightarrow> nat \<times> view"
  and processChildren :: "plugin_node list \<Rightarrow> nat \<Rightarrow> view \<Rightarrow> view"
where
  "processNode (PluginNode u n pu cs) par st =
     (let internalNode = length (heap st);
          st1 = st\<lparr>heap := heap st @ [\<lparr>id_node = u, name = n, parentId = pu,
                                         children = [], parent = par\<rparr>],
                    nodeMap := map_set (nodeMap st) u internalNode\<rparr>
      in (internalNode, processChildren cs internalNode st1))"
| "processChildren [] internalNode st = st"
| "processChildren (child # rest) internalNode st =
     (case processNode child (Some internalNode) st of
        (childNode, st') \<Rightarrow>
          processChildren rest internalNode
            (st'\<lparr>heap := (heap st')[internalNode :=
                (heap st' ! internalNode)
                  \<lparr>children := children (heap st' ! internalNode) @ [childNode]\<rparr>]\<rparr>))"

fun process_roots :: "plugin_node list \<Rightarrow> view \<Rightarrow> nat list \<times> view" where
  "process_roots [] st = ([], st)"
| "process_roots (root # rest) st =
     (case processNode root None st of
        (r, st') \<Rightarrow> (case process_roots rest st' of (rs, st'') \<Rightarrow> (r # rs, st'')))"

fun dedupe_roots :: "inode list \<Rightarrow> string list \<Rightarrow> nat list \<Rightarrow> nat list" where
  "dedupe_roots h seen [] = []"
| "dedupe_roots h seen (r # rs) =
     (if id_node (h ! r) \<in> set seen then dedupe_roots h seen rs
      else r # dedupe_roots h (id_node (h ! r) # seen) rs)"

definition buildNodeMapFromTree :: "plugin_node list \<Rightarrow> view \<Rightarrow> view" where
  "buildNodeMapFromTree treeArray st =
     (case process_roots treeArray (st\<lparr>nodeMap := []\<rparr>) of
        (roots, st') \<Rightarrow>
          st'\<lparr>allTreeRoots := dedupe_roots (heap st') [] roots,
              treeRoots := dedupe_roots (heap st') [] roots\<rparr>)"

text \<open>
  \<open>isolateActiveTree\<close> climbs \<open>while (root.parent) root = root.parent\<close>. The loop runs
  forever on a cycle of \<open>parent\<close> references, so the climb is a partial function and
  \<open>None\<close> is the run that does not return.
\<close>

partial_function (option) climb :: "inode list \<Rightarrow> nat \<Rightarrow> nat option" where
  "climb h root = (case parent (h ! root) of None \<Rightarrow> Some root | Some p \<Rightarrow> climb h p)"

declare climb.simps [code]

definition isolateActiveTree :: "view \<Rightarrow> view option" where
  "isolateActiveTree st =
     (case currentNode st of
        None \<Rightarrow> Some (st\<lparr>treeRoots := allTreeRoots st\<rparr>)
      | Some n \<Rightarrow>
          (case climb (heap st) n of
             None \<Rightarrow> None
           | Some root \<Rightarrow> Some (st\<lparr>currentRootNode := Some root, treeRoots := [root]\<rparr>)))"


text \<open>
  One step along \<open>parent\<close>, one step along \<open>children\<close>, the nodes reachable from a root
  through \<open>children\<close>, and the shape of a heap that \<open>buildNodeMapFromTree\<close> has built: a
  parent is allocated before its children, every entry of a \<open>children\<close> array refers back
  through \<open>parent\<close>, and every node with a parent is in its parent's \<open>children\<close> (but for
  the nodes of \<open>pending\<close>, whose push is still to come while the forest is being built).
\<close>

definition parent_step :: "inode list \<Rightarrow> (nat \<times> nat) set" where
  "parent_step h = {(c, p). c < length h \<and> parent (h ! c) = Some p}"

definition child_step :: "inode list \<Rightarrow> (nat \<times> nat) set" where
  "child_step h = {(p, c). p < length h \<and> c \<in> set (children (h ! p))}"

definition subtree :: "inode list \<Rightarrow> nat \<Rightarrow> nat set" where
  "subtree h root = {m. (root, m) \<in> (child_step h)\<^sup>*}"

definition heap_inv :: "nat set \<Rightarrow> inode list \<Rightarrow> bool" where
  "heap_inv pending h =
     ((\<forall>i<length h. \<forall>p. parent (h ! i) = Some p \<longrightarrow> p < i)
      \<and> (\<forall>i<length h. \<forall>c\<in>set (children (h ! i)). c < length h \<and> parent (h ! c) = Some i)
      \<and> (\<forall>c<length h. \<forall>i. parent (h ! c) = Some i \<longrightarrow>
            c \<in> set (children (h ! i)) \<or> c \<in> pending))"

definition wf_heap :: "inode list \<Rightarrow> bool" where
  "wf_heap h = heap_inv {} h"

lemma heap_inv_alloc:
  assumes inv: "heap_inv pend h" and par: "\<forall>p. par = Some p \<longrightarrow> p < length h"
  shows "heap_inv (pend \<union> (case par of None \<Rightarrow> {} | Some q \<Rightarrow> {length h}))
           (h @ [\<lparr>id_node = u, name = n, parentId = pu, children = [], parent = par\<rparr>])"
proof -
  let ?h = "h @ [\<lparr>id_node = u, name = n, parentId = pu, children = [], parent = par\<rparr>]"
  let ?pend = "pend \<union> (case par of None \<Rightarrow> {} | Some q \<Rightarrow> {length h})"
  have P1: "\<forall>i<length ?h. \<forall>p. parent (?h ! i) = Some p \<longrightarrow> p < i"
  proof (intro allI impI)
    fix i p assume "i < length ?h" "parent (?h ! i) = Some p"
    then show "p < i"
      using inv par by (cases "i < length h") (auto simp: nth_append heap_inv_def)
  qed
  have P2: "\<forall>i<length ?h. \<forall>c\<in>set (children (?h ! i)). c < length ?h \<and> parent (?h ! c) = Some i"
  proof (intro allI impI ballI)
    fix i c assume i: "i < length ?h" and c: "c \<in> set (children (?h ! i))"
    have il: "i < length h" using i c by (cases "i < length h") (auto simp: nth_append)
    with c have c': "c \<in> set (children (h ! i))" by (simp add: nth_append)
    with inv il have "c < length h \<and> parent (h ! c) = Some i" by (auto simp: heap_inv_def)
    then show "c < length ?h \<and> parent (?h ! c) = Some i" by (simp add: nth_append)
  qed
  have P3: "\<forall>c<length ?h. \<forall>i. parent (?h ! c) = Some i \<longrightarrow>
              c \<in> set (children (?h ! i)) \<or> c \<in> ?pend"
  proof (intro allI impI)
    fix c i assume c: "c < length ?h" and p: "parent (?h ! c) = Some i"
    show "c \<in> set (children (?h ! i)) \<or> c \<in> ?pend"
    proof (cases "c < length h")
      case True
      with p have pc: "parent (h ! c) = Some i" by (simp add: nth_append)
      with inv True have "i < c" by (auto simp: heap_inv_def)
      with True have "i < length h" by simp
      moreover from inv True pc have "c \<in> set (children (h ! i)) \<or> c \<in> pend"
        by (auto simp: heap_inv_def)
      ultimately show ?thesis by (auto simp: nth_append)
    next
      case False
      with c have "c = length h" by simp
      with p show ?thesis by (cases par) simp_all
    qed
  qed
  from P1 P2 P3 show ?thesis unfolding heap_inv_def by blast
qed

lemma heap_inv_push:
  assumes inv: "heap_inv (pend \<union> {ch}) h" and me: "me < length h" and ch: "ch < length h"
    and pch: "parent (h ! ch) = Some me"
  shows "heap_inv pend (h[me := (h ! me)\<lparr>children := children (h ! me) @ [ch]\<rparr>])"
proof -
  let ?h = "h[me := (h ! me)\<lparr>children := children (h ! me) @ [ch]\<rparr>]"
  have par_same: "parent (?h ! x) = parent (h ! x)" if "x < length h" for x
    using that by (cases "x = me") simp_all
  have P1: "\<forall>i<length ?h. \<forall>p. parent (?h ! i) = Some p \<longrightarrow> p < i"
  proof (intro allI impI)
    fix i p assume "i < length ?h" "parent (?h ! i) = Some p"
    then have "i < length h" "parent (h ! i) = Some p" by (simp_all add: par_same)
    with inv show "p < i" by (auto simp: heap_inv_def)
  qed
  have P2: "\<forall>i<length ?h. \<forall>c\<in>set (children (?h ! i)). c < length ?h \<and> parent (?h ! c) = Some i"
  proof (intro allI impI ballI)
    fix i c assume i: "i < length ?h" and c: "c \<in> set (children (?h ! i))"
    then have il: "i < length h" by simp
    have "c < length h \<and> parent (h ! c) = Some i"
    proof (cases "i = me")
      case True
      with c me have "c \<in> set (children (h ! me)) \<or> c = ch" by auto
      then show ?thesis
      proof
        assume "c \<in> set (children (h ! me))"
        with inv me True show ?thesis by (auto simp: heap_inv_def)
      next
        assume "c = ch"
        with ch pch True show ?thesis by simp
      qed
    next
      case False
      with c il have "c \<in> set (children (h ! i))" by simp
      with inv il show ?thesis by (auto simp: heap_inv_def)
    qed
    then show "c < length ?h \<and> parent (?h ! c) = Some i" by (simp add: par_same)
  qed
  have P3: "\<forall>c<length ?h. \<forall>i. parent (?h ! c) = Some i \<longrightarrow>
              c \<in> set (children (?h ! i)) \<or> c \<in> pend"
  proof (intro allI impI)
    fix c i assume c: "c < length ?h" and p: "parent (?h ! c) = Some i"
    then have cl: "c < length h" and pc: "parent (h ! c) = Some i" by (simp_all add: par_same)
    from inv cl pc have "i < c" by (auto simp: heap_inv_def)
    with cl have il: "i < length h" by simp
    from inv cl pc have old: "c \<in> set (children (h ! i)) \<or> c \<in> pend \<or> c = ch"
      by (auto simp: heap_inv_def)
    show "c \<in> set (children (?h ! i)) \<or> c \<in> pend"
    proof (cases "c = ch")
      case True
      with pc pch have "i = me" by simp
      with True me show ?thesis by simp
    next
      case False
      with old have "c \<in> set (children (h ! i)) \<or> c \<in> pend" by blast
      then show ?thesis using il me by (cases "i = me") auto
    qed
  qed
  from P1 P2 P3 show ?thesis unfolding heap_inv_def by blast
qed


lemma process_heap:
  "heap_inv pend (heap st) \<Longrightarrow> (\<forall>p. par = Some p \<longrightarrow> p < length (heap st)) \<Longrightarrow>
     fst (processNode node par st) = length (heap st)
     \<and> length (heap st) < length (heap (snd (processNode node par st)))
     \<and> heap_inv (pend \<union> (case par of None \<Rightarrow> {} | Some q \<Rightarrow> {length (heap st)}))
          (heap (snd (processNode node par st)))
     \<and> parent (heap (snd (processNode node par st)) ! length (heap st)) = par
     \<and> (\<forall>i<length (heap st). heap (snd (processNode node par st)) ! i = heap st ! i)"
  and
  "heap_inv pend (heap st) \<Longrightarrow> me < length (heap st) \<Longrightarrow>
     heap_inv pend (heap (processChildren cs me st))
     \<and> length (heap st) \<le> length (heap (processChildren cs me st))
     \<and> (\<forall>i<length (heap st). i \<noteq> me \<longrightarrow> heap (processChildren cs me st) ! i = heap st ! i)
     \<and> parent (heap (processChildren cs me st) ! me) = parent (heap st ! me)"
proof (induction node par st and cs me st arbitrary: pend and pend
    rule: processNode_processChildren.induct)
  case (1 u n pu cs par st)
  define me where "me = length (heap st)"
  define st1 where "st1 = st\<lparr>heap := heap st @ [\<lparr>id_node = u, name = n, parentId = pu,
                                         children = [], parent = par\<rparr>],
                    nodeMap := map_set (nodeMap st) u me\<rparr>"
  let ?pend = "pend \<union> (case par of None \<Rightarrow> {} | Some q \<Rightarrow> {length (heap st)})"
  have res: "processNode (PluginNode u n pu cs) par st = (me, processChildren cs me st1)"
    by (simp add: me_def st1_def Let_def)
  have inv1: "heap_inv ?pend (heap st1)"
    using heap_inv_alloc [OF "1.prems"(1) "1.prems"(2)] by (simp add: st1_def)
  have me1: "me < length (heap st1)" by (simp add: me_def st1_def)
  have st1': "st1 = st\<lparr>heap := heap st @ [\<lparr>id_node = u, name = n, parentId = pu,
                                         children = [], parent = par\<rparr>],
                    nodeMap := map_set (nodeMap st) u (length (heap st))\<rparr>"
    by (simp add: st1_def me_def)
  note IH = "1.IH" [OF me_def st1_def, of ?pend, OF inv1 me1]
  have len1: "length (heap st1) = Suc (length (heap st))" by (simp add: st1_def)
  have old: "\<forall>i<length (heap st). heap (processChildren cs me st1) ! i = heap st ! i"
  proof (intro allI impI)
    fix i assume i: "i < length (heap st)"
    then have "i < length (heap st1)" "i \<noteq> me" by (simp_all add: len1 me_def)
    with IH have "heap (processChildren cs me st1) ! i = heap st1 ! i" by blast
    also have "\<dots> = heap st ! i" using i by (simp add: st1_def nth_append)
    finally show "heap (processChildren cs me st1) ! i = heap st ! i" .
  qed
  have "parent (heap st1 ! me) = par" by (simp add: st1_def me_def)
  with IH have par': "parent (heap (processChildren cs me st1) ! me) = par" by simp
  from IH len1 have "length (heap st) < length (heap (processChildren cs me st1))" by simp
  with IH old par' show ?case unfolding res by (simp add: me_def)
next
  case (2 internalNode st)
  then show ?case by simp
next
  case (3 child rest me st)
  obtain ch st1 where pn: "processNode child (Some me) st = (ch, st1)"
    by (cases "processNode child (Some me) st")
  have "\<forall>p. Some me = Some p \<longrightarrow> p < length (heap st)" using "3.prems"(2) by simp
  from "3.IH"(1) [OF "3.prems"(1) this]
  have ch: "ch = length (heap st)" and len1: "length (heap st) < length (heap st1)"
    and inv1: "heap_inv (pend \<union> {ch}) (heap st1)"
    and pch: "parent (heap st1 ! ch) = Some me"
    and old1: "\<forall>i<length (heap st). heap st1 ! i = heap st ! i"
    by (simp_all add: pn)
  define st2 where "st2 = st1\<lparr>heap := (heap st1)[me :=
                (heap st1 ! me)\<lparr>children := children (heap st1 ! me) @ [ch]\<rparr>]\<rparr>"
  have res: "processChildren (child # rest) me st = processChildren rest me st2"
    by (simp add: pn st2_def)
  have me1: "me < length (heap st1)" using "3.prems"(2) len1 by simp
  have ch1: "ch < length (heap st1)" using ch len1 by simp
  have inv2: "heap_inv pend (heap st2)"
    using heap_inv_push [OF inv1 me1 ch1 pch] by (simp add: st2_def)
  have me2: "me < length (heap st2)" using me1 by (simp add: st2_def)
  note IH = "3.IH"(2) [OF pn [symmetric] inv2 [unfolded st2_def] me2 [unfolded st2_def],
      folded st2_def]
  have len2: "length (heap st2) = length (heap st1)" by (simp add: st2_def)
  have old: "\<forall>i<length (heap st). i \<noteq> me \<longrightarrow> heap (processChildren rest me st2) ! i = heap st ! i"
  proof (intro allI impI)
    fix i assume i: "i < length (heap st)" and ne: "i \<noteq> me"
    with len1 len2 have "i < length (heap st2)" by simp
    with IH ne have "heap (processChildren rest me st2) ! i = heap st2 ! i" by blast
    also have "\<dots> = heap st1 ! i" using ne by (simp add: st2_def)
    also have "\<dots> = heap st ! i" using old1 i by blast
    finally show "heap (processChildren rest me st2) ! i = heap st ! i" .
  qed
  have "parent (heap st2 ! me) = parent (heap st1 ! me)" using me1 by (simp add: st2_def)
  also have "\<dots> = parent (heap st ! me)" using old1 "3.prems"(2) by simp
  finally have p2: "parent (heap st2 ! me) = parent (heap st ! me)" .
  from IH len1 len2 have "length (heap st) \<le> length (heap (processChildren rest me st2))" by simp
  with IH old p2 show ?case unfolding res by simp
qed


lemma process_roots_heap:
  "heap_inv {} (heap st) \<Longrightarrow>
     heap_inv {} (heap (snd (process_roots ts st)))
     \<and> length (heap st) \<le> length (heap (snd (process_roots ts st)))"
proof (induction ts arbitrary: st)
  case Nil
  then show ?case by simp
next
  case (Cons t ts)
  obtain r st1 where pn: "processNode t None st = (r, st1)" by (cases "processNode t None st")
  from process_heap(1) [OF Cons.prems, of None t]
  have inv1: "heap_inv {} (heap st1)" and len1: "length (heap st) < length (heap st1)"
    by (simp_all add: pn)
  obtain rs st2 where pr: "process_roots ts st1 = (rs, st2)" by (cases "process_roots ts st1")
  from Cons.IH [OF inv1] have "heap_inv {} (heap st2)" "length (heap st1) \<le> length (heap st2)"
    by (simp_all add: pr)
  with len1 show ?case by (simp add: pn pr)
qed

fun uuids_of :: "plugin_node \<Rightarrow> string set" where
  "uuids_of (PluginNode u n pu cs) = insert u (\<Union>c\<in>set cs. uuids_of c)"

definition handles_valid :: "view \<Rightarrow> bool" where
  "handles_valid st = (\<forall>v\<in>snd ` set (nodeMap st). v < length (heap st))"

lemma map_set_keys: "fst ` set (map_set m k v) = insert k (fst ` set m)"
  by (induction m k v rule: map_set.induct) (auto split: if_splits)

lemma map_set_values: "snd ` set (map_set m k v) \<subseteq> insert v (snd ` set m)"
  by (induction m k v rule: map_set.induct) (auto split: if_splits)

lemma process_nodeMap:
  "handles_valid st \<Longrightarrow>
     handles_valid (snd (processNode node par st))
     \<and> length (heap st) < length (heap (snd (processNode node par st)))
     \<and> fst ` set (nodeMap (snd (processNode node par st)))
         = fst ` set (nodeMap st) \<union> uuids_of node"
  and
  "handles_valid st \<Longrightarrow>
     handles_valid (processChildren cs me st)
     \<and> length (heap st) \<le> length (heap (processChildren cs me st))
     \<and> fst ` set (nodeMap (processChildren cs me st))
         = fst ` set (nodeMap st) \<union> (\<Union>c\<in>set cs. uuids_of c)"
proof (induction node par st and cs me st rule: processNode_processChildren.induct)
  case (1 u n pu cs par st)
  define me where "me = length (heap st)"
  define st1 where "st1 = st\<lparr>heap := heap st @ [\<lparr>id_node = u, name = n, parentId = pu,
                                         children = [], parent = par\<rparr>],
                    nodeMap := map_set (nodeMap st) u me\<rparr>"
  have res: "processNode (PluginNode u n pu cs) par st = (me, processChildren cs me st1)"
    by (simp add: me_def st1_def Let_def)
  have v1: "handles_valid st1"
    unfolding handles_valid_def
  proof
    fix v assume "v \<in> snd ` set (nodeMap st1)"
    then have "v = me \<or> v \<in> snd ` set (nodeMap st)"
      using map_set_values [of "nodeMap st" u me] by (auto simp: st1_def)
    with "1.prems" show "v < length (heap st1)"
      by (auto simp: handles_valid_def st1_def me_def less_Suc_eq)
  qed
  note IH = "1.IH" [OF me_def st1_def v1]
  have "length (heap st1) = Suc (length (heap st))" by (simp add: st1_def)
  moreover have "fst ` set (nodeMap st1) = insert u (fst ` set (nodeMap st))"
    by (simp add: st1_def map_set_keys)
  ultimately show ?case using IH unfolding res by auto
next
  case (2 internalNode st)
  then show ?case by simp
next
  case (3 child rest me st)
  obtain ch st1 where pn: "processNode child (Some me) st = (ch, st1)"
    by (cases "processNode child (Some me) st")
  from "3.IH"(1) [OF "3.prems"]
  have v1: "handles_valid st1" and len1: "length (heap st) < length (heap st1)"
    and k1: "fst ` set (nodeMap st1) = fst ` set (nodeMap st) \<union> uuids_of child"
    by (simp_all add: pn)
  define st2 where "st2 = st1\<lparr>heap := (heap st1)[me :=
                (heap st1 ! me)\<lparr>children := children (heap st1 ! me) @ [ch]\<rparr>]\<rparr>"
  have res: "processChildren (child # rest) me st = processChildren rest me st2"
    by (simp add: pn st2_def)
  have v2: "handles_valid st2" using v1 by (simp add: handles_valid_def st2_def)
  note IH = "3.IH"(2) [OF pn [symmetric] v2 [unfolded st2_def], folded st2_def]
  have "length (heap st2) = length (heap st1)" "nodeMap st2 = nodeMap st1"
    by (simp_all add: st2_def)
  with IH len1 k1 show ?case unfolding res by auto
qed

lemma process_roots_nodeMap:
  "handles_valid st \<Longrightarrow>
     handles_valid (snd (process_roots ts st))
     \<and> fst ` set (nodeMap (snd (process_roots ts st)))
         = fst ` set (nodeMap st) \<union> (\<Union>t\<in>set ts. uuids_of t)"
proof (induction ts arbitrary: st)
  case Nil
  then show ?case by simp
next
  case (Cons t ts)
  obtain r st1 where pn: "processNode t None st = (r, st1)" by (cases "processNode t None st")
  from process_nodeMap(1) [OF Cons.prems, of t None]
  have v1: "handles_valid st1"
    and k1: "fst ` set (nodeMap st1) = fst ` set (nodeMap st) \<union> uuids_of t"
    by (simp_all add: pn)
  obtain rs st2 where pr: "process_roots ts st1 = (rs, st2)" by (cases "process_roots ts st1")
  from Cons.IH [OF v1] k1 show ?case by (auto simp: pn pr)
qed

lemma buildNodeMapFromTree_wf:
  assumes "wf_heap (heap st)"
  shows "wf_heap (heap (buildNodeMapFromTree treeArray st))
         \<and> handles_valid (buildNodeMapFromTree treeArray st)
         \<and> fst ` set (nodeMap (buildNodeMapFromTree treeArray st))
             = (\<Union>t\<in>set treeArray. uuids_of t)"
proof -
  let ?st0 = "st\<lparr>nodeMap := []\<rparr>"
  obtain roots st' where pr: "process_roots treeArray ?st0 = (roots, st')"
    by (cases "process_roots treeArray ?st0")
  have "heap_inv {} (heap ?st0)" using assms by (simp add: wf_heap_def)
  from process_roots_heap [OF this, of treeArray] have w: "wf_heap (heap st')"
    by (simp add: pr wf_heap_def)
  have "handles_valid ?st0" by (simp add: handles_valid_def)
  from process_roots_nodeMap [OF this, of treeArray]
  have "handles_valid st'" "fst ` set (nodeMap st') = (\<Union>t\<in>set treeArray. uuids_of t)"
    by (simp_all add: pr)
  with w show ?thesis
    by (simp add: buildNodeMapFromTree_def pr handles_valid_def)
qed

lemma first_success_Some: "first_success xs = Some x \<Longrightarrow> Some x \<in> set xs"
  by (induction xs rule: first_success.induct) auto

lemma first_node_where_Some: "first_node_where P m = Some n \<Longrightarrow> n \<in> snd ` set m"
  by (auto simp: first_node_where_def find_Some_iff in_set_conv_nth
      intro!: image_eqI [where x = "m ! i" for i])

lemma locate_current_in_map:
  assumes "locate_current h m u f = Some n"
  shows "n \<in> snd ` set m"
proof -
  from first_success_Some [OF assms [unfolded locate_current_def]]
  consider "(case u of Some k \<Rightarrow> map_of m k | None \<Rightarrow> None) = Some n"
    | "first_node_where (names_match_exactly h f) m = Some n"
    | "first_node_where (names_match_ignoring_case h f) m = Some n"
    | "first_node_where (names_match_partially h f) m = Some n"
    | "(case m of [] \<Rightarrow> None | (k, node) # rest \<Rightarrow> Some node) = Some n"
    by auto
  then show ?thesis
  proof cases
    case 1
    then obtain k where "map_of m k = Some n" by (cases u) auto
    then have "(k, n) \<in> set m" by (rule map_of_SomeD)
    then show ?thesis by force
  next
    case 5
    then show ?thesis by (cases m) auto
  qed (auto dest: first_node_where_Some)
qed


lemma climb_root:
  assumes up: "\<forall>i<length h. \<forall>p. parent (h ! i) = Some p \<longrightarrow> p < i"
  shows "n < length h \<Longrightarrow>
     \<exists>r. climb h n = Some r \<and> r \<le> n \<and> parent (h ! r) = None \<and> (n, r) \<in> (parent_step h)\<^sup>*"
proof (induction n rule: less_induct)
  case (less n)
  show ?case
  proof (cases "parent (h ! n)")
    case None
    then have "climb h n = Some n" by (simp add: climb.simps [of h n])
    with None show ?thesis by blast
  next
    case (Some p)
    with up less.prems have pn: "p < n" by blast
    with less.prems have "p < length h" by simp
    from less.IH [OF pn this] obtain r where r: "climb h p = Some r" "r \<le> p"
      "parent (h ! r) = None" "(p, r) \<in> (parent_step h)\<^sup>*" by blast
    have "(n, p) \<in> parent_step h" using Some less.prems by (simp add: parent_step_def)
    from this r(4) have "(n, r) \<in> (parent_step h)\<^sup>*" by (rule converse_rtrancl_into_rtrancl)
    moreover have "climb h n = Some r" using Some r(1) by (simp add: climb.simps [of h n])
    ultimately show ?thesis using r pn by auto
  qed
qed

lemma climb_of_path:
  "(m, r) \<in> (parent_step h)\<^sup>* \<Longrightarrow> parent (h ! r) = None \<Longrightarrow> climb h m = Some r"
proof (induction rule: converse_rtrancl_induct)
  case base
  then show ?case by (simp add: climb.simps [of h r])
next
  case (step m m')
  then have "parent (h ! m) = Some m'" by (simp add: parent_step_def)
  with step show ?case by (simp add: climb.simps [of h m])
qed

lemma wf_heap_up: "wf_heap h \<Longrightarrow> i < length h \<Longrightarrow> parent (h ! i) = Some p \<Longrightarrow> p < i"
  unfolding wf_heap_def heap_inv_def by blast

lemma wf_heap_child:
  "wf_heap h \<Longrightarrow> i < length h \<Longrightarrow> c \<in> set (children (h ! i)) \<Longrightarrow>
   c < length h \<and> parent (h ! c) = Some i"
  unfolding wf_heap_def heap_inv_def by blast

lemma wf_heap_parent:
  "wf_heap h \<Longrightarrow> c < length h \<Longrightarrow> parent (h ! c) = Some i \<Longrightarrow> c \<in> set (children (h ! i))"
  unfolding wf_heap_def heap_inv_def by blast

lemma child_step_converse:
  assumes "wf_heap h"
  shows "child_step h = (parent_step h)\<inverse>"
proof (intro set_eqI iffI)
  fix e assume "e \<in> child_step h"
  then obtain p c where e: "e = (p, c)" and "p < length h" "c \<in> set (children (h ! p))"
    by (auto simp: child_step_def)
  with wf_heap_child [OF assms] have "c < length h \<and> parent (h ! c) = Some p" by blast
  then show "e \<in> (parent_step h)\<inverse>" by (simp add: e parent_step_def)
next
  fix e assume "e \<in> (parent_step h)\<inverse>"
  then obtain p c where e: "e = (p, c)" and c: "c < length h" and pc: "parent (h ! c) = Some p"
    by (auto simp: parent_step_def)
  from wf_heap_up [OF assms c pc] c have "p < length h" by simp
  moreover from wf_heap_parent [OF assms c pc] have "c \<in> set (children (h ! p))" .
  ultimately show "e \<in> child_step h" by (simp add: e child_step_def)
qed

lemma subtree_iff:
  assumes "wf_heap h"
  shows "m \<in> subtree h r \<longleftrightarrow> (m, r) \<in> (parent_step h)\<^sup>*"
  by (simp add: subtree_def child_step_converse [OF assms] rtrancl_converse)

lemma parent_path_valid:
  "(m, r) \<in> (parent_step h)\<^sup>* \<Longrightarrow> r < length h \<Longrightarrow> m < length h"
  by (induction rule: converse_rtrancl_induct) (auto simp: parent_step_def)

text \<open>
  C5. For every forest built by \<open>buildNodeMapFromTree\<close> and every current node \<open>n\<close> that
  \<open>findCurrentNode\<close> located in it, \<open>isolateActiveTree\<close> returns (the climb ends) and sets
  the visible forest to exactly one root: the node without parent reached from \<open>n\<close> along
  \<open>parent\<close> references. The nodes reachable from that root through \<open>children\<close> are exactly
  the nodes whose own climb ends in that root: the whole tree of \<open>n\<close> and no node of another
  tree. \<open>allTreeRoots\<close>, the heap and the node map are left as they were.
\<close>

theorem isolateActiveTree_single_tree:
  assumes "wf_heap (heap st0)"
    and "st = findCurrentNode (buildNodeMapFromTree treeArray st0)"
    and "currentNode st = Some n"
  shows "\<exists>root. isolateActiveTree st
                  = Some (st\<lparr>currentRootNode := Some root, treeRoots := [root]\<rparr>)
      \<and> climb (heap st) n = Some root
      \<and> root < length (heap st)
      \<and> parent (heap st ! root) = None
      \<and> (n, root) \<in> (parent_step (heap st))\<^sup>*
      \<and> n \<in> subtree (heap st) root
      \<and> subtree (heap st) root
          = {m. m < length (heap st) \<and> climb (heap st) m = Some root}
      \<and> map_option allTreeRoots (isolateActiveTree st) = Some (allTreeRoots st)"
proof -
  let ?b = "buildNodeMapFromTree treeArray st0"
  from buildNodeMapFromTree_wf [OF assms(1), of treeArray]
  have wb: "wf_heap (heap ?b)" and hv: "handles_valid ?b" by simp_all
  have st: "st = ?b\<lparr>currentNode :=
      locate_current (heap ?b) (nodeMap ?b) (currentChatUUID ?b) (currentChatFile ?b)\<rparr>"
    using assms(2) by (simp add: findCurrentNode_result)
  then have h: "heap st = heap ?b" and nm: "nodeMap st = nodeMap ?b" by simp_all
  from st assms(3)
  have "locate_current (heap ?b) (nodeMap ?b) (currentChatUUID ?b) (currentChatFile ?b) = Some n"
    by simp
  from locate_current_in_map [OF this] hv have n: "n < length (heap st)"
    by (auto simp: handles_valid_def h)
  have w: "wf_heap (heap st)" using wb h by simp
  then have up: "\<forall>i<length (heap st). \<forall>p. parent (heap st ! i) = Some p \<longrightarrow> p < i"
    using wf_heap_up by blast
  from climb_root [OF up n] obtain root where r: "climb (heap st) n = Some root" "root \<le> n"
    "parent (heap st ! root) = None" "(n, root) \<in> (parent_step (heap st))\<^sup>*" by blast
  from r(2) n have rl: "root < length (heap st)" by simp
  have iso: "isolateActiveTree st = Some (st\<lparr>currentRootNode := Some root, treeRoots := [root]\<rparr>)"
    using assms(3) r(1) by (simp add: isolateActiveTree_def)
  have sub: "subtree (heap st) root = {m. m < length (heap st) \<and> climb (heap st) m = Some root}"
  proof (intro set_eqI iffI)
    fix m assume "m \<in> subtree (heap st) root"
    then have p: "(m, root) \<in> (parent_step (heap st))\<^sup>*" by (simp add: subtree_iff [OF w])
    from parent_path_valid [OF p rl] climb_of_path [OF p r(3)]
    show "m \<in> {m. m < length (heap st) \<and> climb (heap st) m = Some root}" by simp
  next
    fix m assume "m \<in> {m. m < length (heap st) \<and> climb (heap st) m = Some root}"
    then have m: "m < length (heap st)" and c: "climb (heap st) m = Some root" by simp_all
    from climb_root [OF up m] c have "(m, root) \<in> (parent_step (heap st))\<^sup>*" by auto
    then show "m \<in> subtree (heap st) root" by (simp add: subtree_iff [OF w])
  qed
  have "n \<in> subtree (heap st) root" using r(4) by (simp add: subtree_iff [OF w])
  with iso r rl sub show ?thesis by simp
qed

lemma wf_heap_empty: "wf_heap []"
  by (simp add: wf_heap_def heap_inv_def)

text \<open>A view that has not built anything yet.\<close>

definition new_view :: "string \<Rightarrow> string option \<Rightarrow> view" where
  "new_view file u = \<lparr>heap = [], nodeMap = [], allTreeRoots = [], treeRoots = [],
      currentChatFile = file, currentChatUUID = u, currentNode = None, currentRootNode = None\<rparr>"


text \<open>An example forest of two trees, and the view after building it.\<close>

definition example_tree :: "plugin_node list" where
  "example_tree =
     [PluginNode ''r1'' ''main'' None
        [PluginNode ''a'' ''branch a'' (Some ''r1'') [PluginNode ''b'' ''branch b'' (Some ''a'') []]],
      PluginNode ''r2'' ''other'' None []]"

lemma example_built:
  "buildNodeMapFromTree example_tree (new_view ''Branch B'' None) =
    \<lparr>heap = [\<lparr>id_node = ''r1'', name = ''main'', parentId = None, children = [1], parent = None\<rparr>,
             \<lparr>id_node = ''a'', name = ''branch a'', parentId = Some ''r1'', children = [2], parent = Some 0\<rparr>,
             \<lparr>id_node = ''b'', name = ''branch b'', parentId = Some ''a'', children = [], parent = Some 1\<rparr>,
             \<lparr>id_node = ''r2'', name = ''other'', parentId = None, children = [], parent = None\<rparr>],
      nodeMap = [(''r1'', 0), (''a'', 1), (''b'', 2), (''r2'', 3)],
      allTreeRoots = [0, 3], treeRoots = [0, 3],
      currentChatFile = ''Branch B'', currentChatUUID = None,
      currentNode = None, currentRootNode = None\<rparr>"
  by (simp add: buildNodeMapFromTree_def example_tree_def new_view_def Let_def)

lemma example_located:
  "currentNode (findCurrentNode (buildNodeMapFromTree example_tree (new_view ''Branch B'' None)))
   = Some 2"
  unfolding example_built by code_simp

theorem isolateActiveTree_single_tree_witness:
  "\<exists>root. isolateActiveTree
       (findCurrentNode (buildNodeMapFromTree example_tree (new_view ''Branch B'' None)))
     = Some ((findCurrentNode (buildNodeMapFromTree example_tree (new_view ''Branch B'' None)))
               \<lparr>currentRootNode := Some root, treeRoots := [root]\<rparr>)
     \<and> climb (heap (findCurrentNode
              (buildNodeMapFromTree example_tree (new_view ''Branch B'' None)))) 2 = Some root
     \<and> 2 \<in> subtree (heap (findCurrentNode
              (buildNodeMapFromTree example_tree (new_view ''Branch B'' None)))) root
     \<and> parent (heap (findCurrentNode
              (buildNodeMapFromTree example_tree (new_view ''Branch B'' None))) ! root) = None"
proof -
  have h1: "wf_heap (heap (new_view ''Branch B'' None))"
    by (simp add: new_view_def wf_heap_empty)
  from isolateActiveTree_single_tree [OF h1 refl example_located]
  show ?thesis by blast
qed



section \<open>buildGraphLegacy\<close>

text \<open>
  The legacy fallback of the tree view (the version of ChatTreeView that
  StorageRebuilder.js carries, lines 897-930). A chat is the enriched record of
  \<open>hydrateChatMetadata\<close>: its clean name and its metadata, of which \<open>uuid\<close> and
  \<open>parent_uuid\<close> are read; a missing or empty identifier is \<open>None\<close>. The first pass
  creates a node per chat, the second links each node of the map to its parent when the
  map has it and collects the other nodes as roots.
\<close>

record legacy_chat =
  cleanName :: string
  metadata_uuid :: "string option"
  metadata_parent_uuid :: "string option"

definition legacy_uuid :: "legacy_chat \<Rightarrow> string" where
  "legacy_uuid c = (case metadata_uuid c of Some u \<Rightarrow> u | None \<Rightarrow> ''legacy_'' @ cleanName c)"

fun create_nodes ::
  "legacy_chat list \<Rightarrow> view \<times> (string \<times> nat) list \<Rightarrow> view \<times> (string \<times> nat) list"
where
  "create_nodes [] s = s"
| "create_nodes (c # rest) (st, nodesByName) =
     (let uuid = legacy_uuid c;
          node = length (heap st);
          st' = st\<lparr>heap := heap st @ [\<lparr>id_node = uuid, name = cleanName c,
                                        parentId = metadata_parent_uuid c,
                                        children = [], parent = None\<rparr>],
                   nodeMap := map_set (nodeMap st) uuid node\<rparr>
      in create_nodes rest (st', map_set nodesByName (cleanName c) node))"

fun link_parents :: "nat list \<Rightarrow> view \<times> nat list \<Rightarrow> view \<times> nat list" where
  "link_parents [] s = s"
| "link_parents (node # rest) (st, roots) =
     (case (case parentId (heap st ! node) of
              Some pid \<Rightarrow> map_get (nodeMap st) pid
            | None \<Rightarrow> None) of
        Some par \<Rightarrow>
          (let h1 = (heap st)[par := (heap st ! par)
                       \<lparr>children := children (heap st ! par) @ [node]\<rparr>];
               h2 = h1[node := (h1 ! node)\<lparr>parent := Some par\<rparr>]
           in link_parents rest (st\<lparr>heap := h2\<rparr>, roots))
      | None \<Rightarrow> link_parents rest (st, roots @ [node]))"

definition buildGraphLegacy :: "legacy_chat list \<Rightarrow> view \<Rightarrow> view" where
  "buildGraphLegacy chats st =
     (case create_nodes chats (st\<lparr>nodeMap := []\<rparr>, []) of
        (st1, nodesByName) \<Rightarrow>
          (case link_parents (map snd (nodeMap st1)) (st1, []) of
             (st2, roots) \<Rightarrow>
               st2\<lparr>treeRoots := roots,
                   currentNode := map_get nodesByName (currentChatFile st2)\<rparr>))"

text \<open>
  What a builder adds for a sequence of records \<open>(id, name, parent id)\<close>: one node per
  record at the end of the heap, in the order of the records and with the record's three
  fields; and in the node map, under every identifier of the sequence, the node of the
  last record that has it (\<open>Map.set\<close> replaces), the other keys being as before.
\<close>

fun last_pos :: "string list \<Rightarrow> string \<Rightarrow> nat option" where
  "last_pos [] k = None"
| "last_pos (x # xs) k =
     (case last_pos xs k of
        Some j \<Rightarrow> Some (Suc j)
      | None \<Rightarrow> if x = k then Some 0 else None)"

definition node_key :: "inode \<Rightarrow> string \<times> string \<times> string option" where
  "node_key n = (id_node n, name n, parentId n)"

fun records_of :: "plugin_node \<Rightarrow> (string \<times> string \<times> string option) list" where
  "records_of (PluginNode u n pu cs) = (u, n, pu) # concat (map records_of cs)"

definition legacy_record :: "legacy_chat \<Rightarrow> string \<times> string \<times> string option" where
  "legacy_record c = (legacy_uuid c, cleanName c, metadata_parent_uuid c)"

definition built :: "view \<Rightarrow> (string \<times> string \<times> string option) list \<Rightarrow> view \<Rightarrow> bool" where
  "built st recs st' \<longleftrightarrow>
     map node_key (heap st') = map node_key (heap st) @ recs
     \<and> (\<forall>k. map_get (nodeMap st') k =
            (case last_pos (map fst recs) k of
               Some j \<Rightarrow> Some (length (heap st) + j)
             | None \<Rightarrow> map_get (nodeMap st) k))"

lemma map_get_map_set:
  "map_get (map_set m k v) k' = (if k' = k then Some v else map_get m k')"
  by (induction m k v rule: map_set.induct) (auto simp: map_get_def)

lemma last_pos_append:
  "last_pos (xs @ ys) k =
     (case last_pos ys k of Some j \<Rightarrow> Some (length xs + j) | None \<Rightarrow> last_pos xs k)"
  by (induction xs) (auto split: option.splits)

lemma built_refl: "built st [] st"
  by (simp add: built_def)

lemma built_length:
  "built st recs st' \<Longrightarrow> length (heap st') = length (heap st) + length recs"
proof -
  assume "built st recs st'"
  then have "map node_key (heap st') = map node_key (heap st) @ recs" by (simp add: built_def)
  then have "length (map node_key (heap st')) = length (map node_key (heap st) @ recs)"
    by simp
  then show ?thesis by simp
qed

lemma built_trans:
  assumes a: "built st r1 st1" and b: "built st1 r2 st2"
  shows "built st (r1 @ r2) st2"
proof -
  from built_length [OF a] have len: "length (heap st1) = length (heap st) + length r1" .
  have h: "map node_key (heap st2) = map node_key (heap st) @ r1 @ r2"
    using a b by (simp add: built_def)
  have m: "map_get (nodeMap st2) k =
            (case last_pos (map fst (r1 @ r2)) k of
               Some j \<Rightarrow> Some (length (heap st) + j)
             | None \<Rightarrow> map_get (nodeMap st) k)" for k
  proof (cases "last_pos (map fst r2) k")
    case None
    with a b show ?thesis by (simp add: built_def last_pos_append)
  next
    case (Some j)
    with b len show ?thesis by (simp add: built_def last_pos_append add.assoc)
  qed
  from h m show ?thesis by (simp add: built_def)
qed

lemma built_alloc:
  assumes "node_key node = (u, n, pu)"
  shows "built st [(u, n, pu)]
           (st\<lparr>heap := heap st @ [node], nodeMap := map_set (nodeMap st) u (length (heap st))\<rparr>)"
  using assms by (simp add: built_def map_get_map_set)

lemma node_key_update:
  assumes "node_key y = node_key (h ! i)"
  shows "map node_key (h[i := y]) = map node_key h"
proof (cases "i < length h")
  case True
  have "map node_key (h[i := y]) = (map node_key h)[i := node_key y]" by (rule map_update)
  also have "\<dots> = (map node_key h)[i := map node_key h ! i]" using True assms by simp
  also have "\<dots> = map node_key h" by (rule list_update_id)
  finally show ?thesis .
next
  case False
  then show ?thesis by (simp add: not_less list_update_beyond)
qed

lemma built_update:
  assumes "built st recs st'" and "node_key y = node_key (heap st' ! i)"
  shows "built st recs (st'\<lparr>heap := (heap st')[i := y]\<rparr>)"
  using assms by (simp add: built_def node_key_update)

lemma process_built:
  "built st (records_of node) (snd (processNode node par st))"
  "built st (concat (map records_of cs)) (processChildren cs me st)"
proof (induction node par st and cs me st rule: processNode_processChildren.induct)
  case (1 u n pu cs par st)
  define internalNode where "internalNode = length (heap st)"
  define st1 where "st1 = st\<lparr>heap := heap st @ [\<lparr>id_node = u, name = n, parentId = pu,
                                         children = [], parent = par\<rparr>],
                    nodeMap := map_set (nodeMap st) u internalNode\<rparr>"
  have res: "processNode (PluginNode u n pu cs) par st
             = (internalNode, processChildren cs internalNode st1)"
    by (simp add: internalNode_def st1_def Let_def)
  have "built st [(u, n, pu)] st1"
    unfolding st1_def internalNode_def by (rule built_alloc) (simp add: node_key_def)
  from built_trans [OF this "1.IH" [OF internalNode_def st1_def]]
  show ?case unfolding res by simp
next
  case (2 internalNode st)
  show ?case by (simp add: built_refl)
next
  case (3 child rest me st)
  obtain ch st1 where pn: "processNode child (Some me) st = (ch, st1)"
    by (cases "processNode child (Some me) st")
  from "3.IH"(1) have b1: "built st (records_of child) st1" by (simp add: pn)
  define st2 where "st2 = st1\<lparr>heap := (heap st1)[me :=
                (heap st1 ! me)\<lparr>children := children (heap st1 ! me) @ [ch]\<rparr>]\<rparr>"
  have res: "processChildren (child # rest) me st = processChildren rest me st2"
    by (simp add: pn st2_def)
  have b2: "built st (records_of child) st2"
    unfolding st2_def using b1 by (rule built_update) (simp add: node_key_def)
  note IH = "3.IH"(2) [OF pn [symmetric], folded st2_def]
  from built_trans [OF b2 IH] show ?case unfolding res by simp
qed

lemma process_roots_built:
  "built st (concat (map records_of ts)) (snd (process_roots ts st))"
proof (induction ts arbitrary: st)
  case Nil
  show ?case by (simp add: built_refl)
next
  case (Cons t ts)
  obtain r st1 where pn: "processNode t None st = (r, st1)" by (cases "processNode t None st")
  obtain rs st2 where pr: "process_roots ts st1 = (rs, st2)" by (cases "process_roots ts st1")
  from process_built(1) [of st t None] have "built st (records_of t) st1" by (simp add: pn)
  moreover from Cons.IH [of st1] have "built st1 (concat (map records_of ts)) st2"
    by (simp add: pr)
  ultimately have "built st (records_of t @ concat (map records_of ts)) st2"
    by (rule built_trans)
  then show ?case by (simp add: pn pr)
qed

lemma buildNodeMapFromTree_nodes:
  "map node_key (heap (buildNodeMapFromTree treeArray st))
     = map node_key (heap st) @ concat (map records_of treeArray)
   \<and> map_get (nodeMap (buildNodeMapFromTree treeArray st)) k
     = map_option (\<lambda>j. length (heap st) + j)
         (last_pos (map fst (concat (map records_of treeArray))) k)"
proof -
  let ?st0 = "st\<lparr>nodeMap := []\<rparr>"
  obtain roots st' where pr: "process_roots treeArray ?st0 = (roots, st')"
    by (cases "process_roots treeArray ?st0")
  from process_roots_built [of ?st0 treeArray]
  have "built ?st0 (concat (map records_of treeArray)) st'" by (simp add: pr)
  then show ?thesis
    by (cases "last_pos (map fst (concat (map records_of treeArray))) k")
       (simp_all add: built_def buildNodeMapFromTree_def pr map_get_def)
qed

lemma create_nodes_nodes:
  "built st (map legacy_record chats) (fst (create_nodes chats (st, byName)))"
proof (induction chats arbitrary: st byName)
  case Nil
  show ?case by (simp add: built_refl)
next
  case (Cons c chats)
  define st1 where "st1 = st\<lparr>heap := heap st @ [\<lparr>id_node = legacy_uuid c, name = cleanName c,
                                        parentId = metadata_parent_uuid c,
                                        children = [], parent = None\<rparr>],
                   nodeMap := map_set (nodeMap st) (legacy_uuid c) (length (heap st))\<rparr>"
  have res: "create_nodes (c # chats) (st, byName)
             = create_nodes chats (st1, map_set byName (cleanName c) (length (heap st)))"
    by (simp add: st1_def Let_def)
  have "built st [legacy_record c] st1"
    unfolding st1_def legacy_record_def by (rule built_alloc) (simp add: node_key_def)
  from built_trans [OF this Cons.IH [of st1]] show ?case unfolding res by simp
qed

lemma link_parents_nodes:
  "nodeMap (fst (link_parents nodes (st, roots))) = nodeMap st
   \<and> map node_key (heap (fst (link_parents nodes (st, roots)))) = map node_key (heap st)"
proof (induction nodes arbitrary: st roots)
  case Nil
  show ?case by simp
next
  case (Cons node nodes)
  show ?case
  proof (cases "case parentId (heap st ! node) of
              Some pid \<Rightarrow> map_get (nodeMap st) pid
            | None \<Rightarrow> None")
    case None
    then show ?thesis by (simp add: Cons.IH)
  next
    case (Some par)
    define h1 where "h1 = (heap st)[par := (heap st ! par)
                       \<lparr>children := children (heap st ! par) @ [node]\<rparr>]"
    define h2 where "h2 = h1[node := (h1 ! node)\<lparr>parent := Some par\<rparr>]"
    have res: "link_parents (node # nodes) (st, roots)
               = link_parents nodes (st\<lparr>heap := h2\<rparr>, roots)"
      using Some by (simp add: h1_def h2_def Let_def)
    have "map node_key h1 = map node_key (heap st)"
      unfolding h1_def by (rule node_key_update) (simp add: node_key_def)
    moreover have "map node_key h2 = map node_key h1"
      unfolding h2_def by (rule node_key_update) (simp add: node_key_def)
    ultimately show ?thesis unfolding res by (simp add: Cons.IH)
  qed
qed

lemma buildGraphLegacy_nodes:
  "map node_key (heap (buildGraphLegacy chats st))
     = map node_key (heap st) @ map legacy_record chats
   \<and> map_get (nodeMap (buildGraphLegacy chats st)) k
     = map_option (\<lambda>j. length (heap st) + j) (last_pos (map legacy_uuid chats) k)"
proof -
  let ?st0 = "st\<lparr>nodeMap := []\<rparr>"
  obtain st1 byName where c: "create_nodes chats (?st0, []) = (st1, byName)"
    by (cases "create_nodes chats (?st0, [])")
  obtain st2 roots where l: "link_parents (map snd (nodeMap st1)) (st1, []) = (st2, roots)"
    by (cases "link_parents (map snd (nodeMap st1)) (st1, [])")
  from create_nodes_nodes [of ?st0 chats "[]"]
  have b: "built ?st0 (map legacy_record chats) st1" by (simp add: c)
  from link_parents_nodes [of "map snd (nodeMap st1)" st1 "[]"]
  have f: "nodeMap st2 = nodeMap st1" "map node_key (heap st2) = map node_key (heap st1)"
    by (simp_all add: l)
  have keys: "fst \<circ> legacy_record = legacy_uuid"
    by (auto simp: legacy_record_def)
  have "map_get [] k = None" by (simp add: map_get_def)
  with b f show ?thesis
    by (cases "last_pos (map legacy_uuid chats) k")
       (simp_all add: built_def buildGraphLegacy_def c l keys)
qed

lemma create_nodes_built:
  "fst ` set (nodeMap (fst (create_nodes chats (st, byName))))
     = fst ` set (nodeMap st) \<union> legacy_uuid ` set chats
   \<and> length (heap (fst (create_nodes chats (st, byName)))) = length (heap st) + length chats"
proof (induction chats arbitrary: st byName)
  case Nil
  show ?case by simp
next
  case (Cons c chats)
  show ?case by (simp add: Let_def Cons.IH map_set_keys)
qed

lemma link_parents_frame:
  "nodeMap (fst (link_parents nodes (st, roots))) = nodeMap st
   \<and> length (heap (fst (link_parents nodes (st, roots)))) = length (heap st)"
proof (induction nodes arbitrary: st roots)
  case Nil
  show ?case by simp
next
  case (Cons node nodes)
  show ?case
    by (cases "case parentId (heap st ! node) of
              Some pid \<Rightarrow> map_get (nodeMap st) pid
            | None \<Rightarrow> None") (simp_all add: Let_def Cons.IH)
qed

lemma buildGraphLegacy_built:
  "fst ` set (nodeMap (buildGraphLegacy chats st)) = legacy_uuid ` set chats
   \<and> length (heap (buildGraphLegacy chats st)) = length (heap st) + length chats"
proof -
  obtain st1 byName where c: "create_nodes chats (st\<lparr>nodeMap := []\<rparr>, []) = (st1, byName)"
    by (cases "create_nodes chats (st\<lparr>nodeMap := []\<rparr>, [])")
  obtain st2 roots where l: "link_parents (map snd (nodeMap st1)) (st1, []) = (st2, roots)"
    by (cases "link_parents (map snd (nodeMap st1)) (st1, [])")
  from create_nodes_built [of chats "st\<lparr>nodeMap := []\<rparr>" "[]"]
  have "fst ` set (nodeMap st1) = legacy_uuid ` set chats"
    "length (heap st1) = length (heap st) + length chats" by (simp_all add: c)
  moreover from link_parents_frame [of "map snd (nodeMap st1)" st1 "[]"]
  have "nodeMap st2 = nodeMap st1" "length (heap st2) = length (heap st1)" by (simp_all add: l)
  ultimately show ?thesis by (simp add: buildGraphLegacy_def c l)
qed

lemma buildNodeMapFromTree_keys:
  "fst ` set (nodeMap (buildNodeMapFromTree treeArray st)) = (\<Union>t\<in>set treeArray. uuids_of t)"
proof -
  let ?st0 = "st\<lparr>nodeMap := []\<rparr>"
  obtain roots st' where pr: "process_roots treeArray ?st0 = (roots, st')"
    by (cases "process_roots treeArray ?st0")
  have "handles_valid ?st0" by (simp add: handles_valid_def)
  from process_roots_nodeMap [OF this, of treeArray]
  show ?thesis by (simp add: pr buildNodeMapFromTree_def)
qed

text \<open>
  C9 as stated fails: for a chat without identifier \<open>buildGraphLegacy\<close> builds the node
  \<open>legacy_chat\<close>, and for a tree record with the empty uuid \<open>buildNodeMapFromTree\<close> builds a
  node under the empty key. Neither function has a failing branch.
\<close>

theorem forest_construction_builds_node_for_empty_identifier:
  "buildGraphLegacy
     [\<lparr>cleanName = ''chat'', metadata_uuid = None, metadata_parent_uuid = None\<rparr>]
     (new_view ''chat'' None)
   = \<lparr>heap = [\<lparr>id_node = ''legacy_chat'', name = ''chat'', parentId = None,
               children = [], parent = None\<rparr>],
      nodeMap = [(''legacy_chat'', 0)], allTreeRoots = [], treeRoots = [0],
      currentChatFile = ''chat'', currentChatUUID = None,
      currentNode = Some 0, currentRootNode = None\<rparr>
   \<and> buildNodeMapFromTree [PluginNode [] ''chat'' None []] (new_view ''chat'' None)
   = \<lparr>heap = [\<lparr>id_node = [], name = ''chat'', parentId = None,
               children = [], parent = None\<rparr>],
      nodeMap = [([], 0)], allTreeRoots = [0], treeRoots = [0],
      currentChatFile = ''chat'', currentChatUUID = None,
      currentNode = None, currentRootNode = None\<rparr>"
  by (simp add: buildGraphLegacy_def buildNodeMapFromTree_def new_view_def legacy_uuid_def
      map_get_def Let_def)

text \<open>
  C9, as amended. For every input sequence of records, forest construction does not fail
  (both functions are total and have no error result) and builds a node for every record,
  the ones without identifier included. \<open>buildGraphLegacy\<close> appends to the heap one node
  per chat, in the order of the chats, with the chat's uuid (or, when the chat has none,
  \<open>legacy_\<close> followed by its name) as \<open>id\<close>, its name and its parent uuid;
  \<open>buildNodeMapFromTree\<close> appends one node per record of the forest, parents before
  children and siblings in order, with the record's uuid (the empty one included), name
  and parent uuid. In both, the node map holds exactly the identifiers of the records, and
  under an identifier the node built for the last record that has it.
\<close>

theorem forest_construction_builds_every_record:
  "map node_key (heap (buildGraphLegacy chats st))
     = map node_key (heap st) @ map legacy_record chats
   \<and> map_get (nodeMap (buildGraphLegacy chats st)) k
     = map_option (\<lambda>j. length (heap st) + j) (last_pos (map legacy_uuid chats) k)
   \<and> fst ` set (nodeMap (buildGraphLegacy chats st)) = legacy_uuid ` set chats
   \<and> length (heap (buildGraphLegacy chats st)) = length (heap st) + length chats
   \<and> map node_key (heap (buildNodeMapFromTree treeArray st))
     = map node_key (heap st) @ concat (map records_of treeArray)
   \<and> map_get (nodeMap (buildNodeMapFromTree treeArray st)) k
     = map_option (\<lambda>j. length (heap st) + j)
         (last_pos (map fst (concat (map records_of treeArray))) k)
   \<and> fst ` set (nodeMap (buildNodeMapFromTree treeArray st))
       = (\<Union>t\<in>set treeArray. uuids_of t)"
  using buildGraphLegacy_nodes [of chats st k] buildNodeMapFromTree_nodes [of treeArray st k]
  by (simp add: buildGraphLegacy_built buildNodeMapFromTree_keys)


section \<open>The batch loop of rebuildStorageFromChats and migrateAllChats\<close>

text \<open>
  Both bulk operations report to a progress popup through
  \<open>updateProgress(current, total, statusText)\<close>, pause with an awaited \<open>setTimeout\<close>, and
  talk to the server and the console. A run is recorded as the list of these events, in
  order: \<open>UpdateProgress current total status\<close>, \<open>Sleep ms\<close>, and \<open>Call e\<close> for an effect
  \<open>e\<close> of an item's processing. The status texts are template strings; a status keeps
  the template and its parameters: \<open>BatchStatus verb k t\<close> is "verb batch k of t...",
  \<open>ItemStatus verb n\<close> is "verb n...", \<open>PauseStatus k t\<close> is "Pausing to free resources...
  (k/t batches done)", \<open>Status s\<close> a constant text and \<open>NoStatus\<close> the omitted argument.
\<close>

datatype status =
    NoStatus
  | Status string
  | BatchStatus string nat nat
  | ItemStatus string string
  | PauseStatus nat nat

datatype 'e event = UpdateProgress nat nat status | Sleep nat | Call 'e

text \<open>
  The loop of \<open>rebuildStorageFromChats\<close> (StorageRebuilder.js, lines 349-386) and the loop
  of \<open>ChatMigrator.migrateAllChats\<close> (lines 196-296) are the same text, up to the verb of
  the status lines, the name shown for an item and the \<open>try\<close> block that processes one
  item. \<open>total_batches n\<close> is \<open>Math.ceil(n / BATCH_SIZE)\<close>. \<open>process_batch\<close> is the inner
  loop over \<open>batch\<close> with \<open>globalIndex = startIdx + i\<close>; \<open>body\<close> is the \<open>try\<close> block with its
  \<open>catch\<close> clause, so it returns in every case: the effects of the item and the new
  counters. \<open>run_batches\<close> is the outer loop from \<open>batchIndex\<close> on; \<open>slice(startIdx, endIdx)\<close>
  is \<open>take (endIdx - startIdx) (drop startIdx xs)\<close>.
\<close>

definition BATCH_SIZE :: nat where
  "BATCH_SIZE = 50"

definition total_batches :: "nat \<Rightarrow> nat" where
  "total_batches n = (n + (BATCH_SIZE - 1)) div BATCH_SIZE"

fun process_batch ::
  "string \<Rightarrow> ('a \<Rightarrow> 'c \<Rightarrow> 'e list \<times> 'c) \<Rightarrow> ('a \<Rightarrow> string) \<Rightarrow> nat \<Rightarrow> nat \<Rightarrow> 'a list
     \<Rightarrow> 'e event list \<times> 'c \<Rightarrow> 'e event list \<times> 'c"
where
  "process_batch verb body label len globalIndex [] st = st"
| "process_batch verb body label len globalIndex (x # batch) (tr, c) =
     (case body x c of
        (calls, c') \<Rightarrow>
          process_batch verb body label len (globalIndex + 1) batch
            (tr @ [UpdateProgress globalIndex len (ItemStatus verb (label x))] @ map Call calls
                @ [UpdateProgress (globalIndex + 1) len NoStatus], c'))"

function run_batches ::
  "string \<Rightarrow> ('a \<Rightarrow> 'c \<Rightarrow> 'e list \<times> 'c) \<Rightarrow> ('a \<Rightarrow> string) \<Rightarrow> 'a list \<Rightarrow> nat
     \<Rightarrow> 'e event list \<times> 'c \<Rightarrow> 'e event list \<times> 'c"
where
  "run_batches verb body label xs batchIndex st =
     (let totalBatches = total_batches (length xs) in
      if batchIndex < totalBatches then
        (let startIdx = batchIndex * BATCH_SIZE;
             endIdx = min (startIdx + BATCH_SIZE) (length xs);
             batch = take (endIdx - startIdx) (drop startIdx xs);
             st1 = (fst st @ [UpdateProgress startIdx (length xs)
                               (BatchStatus verb (batchIndex + 1) totalBatches)], snd st);
             st2 = process_batch verb body label (length xs) startIdx batch st1;
             st3 = (if batchIndex < totalBatches - 1
                    then (fst st2 @ [UpdateProgress endIdx (length xs)
                                      (PauseStatus (batchIndex + 1) totalBatches),
                                     Sleep 500], snd st2)
                    else st2)
         in run_batches verb body label xs (batchIndex + 1) st3)
      else st)"
  by pat_completeness auto
termination
  by (relation "measure (\<lambda>(verb, body, label, xs, batchIndex, st). total_batches (length xs) - batchIndex)")
     auto

declare run_batches.simps [simp del]

text \<open>
  The words of the specification. The records are processed one after the other, each
  exactly once and in the order of the input, the counters of one record's processing
  being handed to the next: \<open>item_runs\<close> pairs every record with the effects of its
  processing and \<open>final_counters\<close> is the state of the counters at the end. The input is
  cut into consecutive chunks of \<open>BATCH_SIZE\<close> records, the last one holding the rest. The
  events of a record are a progress report that names it, its effects, and a progress
  report of the count completed with it. The events of the chunk number \<open>k\<close> (from 0) are
  the report of the chunk's start, the events of its records and, unless the chunk is
  the last one, the report of the pause and a pause of 500 ms. \<open>batch_events\<close> is the
  events of all chunks in order.
\<close>

definition chunks :: "'a list \<Rightarrow> 'a list list" where
  "chunks xs = map (\<lambda>k. take BATCH_SIZE (drop (k * BATCH_SIZE) xs)) [0..<total_batches (length xs)]"

fun item_runs :: "('a \<Rightarrow> 'c \<Rightarrow> 'e list \<times> 'c) \<Rightarrow> 'a list \<Rightarrow> 'c \<Rightarrow> ('a \<times> 'e list) list" where
  "item_runs body [] c = []"
| "item_runs body (x # xs) c = (x, fst (body x c)) # item_runs body xs (snd (body x c))"

fun final_counters :: "('a \<Rightarrow> 'c \<Rightarrow> 'e list \<times> 'c) \<Rightarrow> 'a list \<Rightarrow> 'c \<Rightarrow> 'c" where
  "final_counters body [] c = c"
| "final_counters body (x # xs) c = final_counters body xs (snd (body x c))"

definition item_events ::
  "string \<Rightarrow> ('a \<Rightarrow> string) \<Rightarrow> nat \<Rightarrow> nat \<times> 'a \<times> 'e list \<Rightarrow> 'e event list"
where
  "item_events verb label n =
     (\<lambda>(g, x, calls).
        UpdateProgress g n (ItemStatus verb (label x)) # map Call calls
          @ [UpdateProgress (Suc g) n NoStatus])"

definition items_events ::
  "string \<Rightarrow> ('a \<Rightarrow> string) \<Rightarrow> nat \<Rightarrow> nat \<Rightarrow> ('a \<times> 'e list) list \<Rightarrow> 'e event list"
where
  "items_events verb label n g runs =
     concat (map (item_events verb label n) (zip [g..<g + length runs] runs))"

definition chunk_events ::
  "string \<Rightarrow> ('a \<Rightarrow> string) \<Rightarrow> nat \<Rightarrow> nat \<Rightarrow> ('a \<times> 'e list) list \<Rightarrow> bool \<Rightarrow> 'e event list"
where
  "chunk_events verb label n k runs is_last =
     UpdateProgress (k * BATCH_SIZE) n (BatchStatus verb (Suc k) (total_batches n))
       # items_events verb label n (k * BATCH_SIZE) runs
       @ (if is_last then []
          else [UpdateProgress (k * BATCH_SIZE + length runs) n
                  (PauseStatus (Suc k) (total_batches n)),
                Sleep 500])"

definition batch_events ::
  "string \<Rightarrow> ('a \<Rightarrow> 'c \<Rightarrow> 'e list \<times> 'c) \<Rightarrow> ('a \<Rightarrow> string) \<Rightarrow> 'a list \<Rightarrow> 'c \<Rightarrow> 'e event list"
where
  "batch_events verb body label xs c =
     (let cs = chunks (item_runs body xs c) in
      concat (map (\<lambda>k. chunk_events verb label (length xs) k (cs ! k) (Suc k = length cs))
                [0..<length cs]))"

text \<open>
  What is observed of a run: \<open>progress_counts\<close> is the sequence of completed counts that
  the progress callback receives, \<open>is_sleep\<close> holds of the pauses, and \<open>calls_of\<close> is the
  sequence of the effects of the items.
\<close>

fun progress_of :: "'e event \<Rightarrow> nat option" where
  "progress_of (UpdateProgress cur tot s) = Some cur"
| "progress_of e = None"

definition progress_counts :: "'e event list \<Rightarrow> nat list" where
  "progress_counts tr = List.map_filter progress_of tr"

fun is_sleep :: "'e event \<Rightarrow> bool" where
  "is_sleep (Sleep ms) = True"
| "is_sleep e = False"

fun call_of :: "'e event \<Rightarrow> 'e option" where
  "call_of (Call e) = Some e"
| "call_of e = None"

definition calls_of :: "'e event list \<Rightarrow> 'e list" where
  "calls_of tr = List.map_filter call_of tr"

text \<open>
  An intermediate form of the loop, for the proofs only: the loop as a recursion over
  a list of chunks, with the code's \<open>process_batch\<close> for each chunk.
\<close>

fun run_chunks ::
  "string \<Rightarrow> ('a \<Rightarrow> 'c \<Rightarrow> 'e list \<times> 'c) \<Rightarrow> ('a \<Rightarrow> string) \<Rightarrow> nat \<Rightarrow> nat \<Rightarrow> 'a list list
     \<Rightarrow> 'e event list \<times> 'c \<Rightarrow> 'e event list \<times> 'c"
where
  "run_chunks verb body label len k [] st = st"
| "run_chunks verb body label len k (chunk # rest) (tr, c) =
     (case process_batch verb body label len (k * BATCH_SIZE) chunk
             (tr @ [UpdateProgress (k * BATCH_SIZE) len
                      (BatchStatus verb (k + 1) (total_batches len))], c) of
        (tr', c') \<Rightarrow>
          run_chunks verb body label len (k + 1) rest
            (if rest = [] then (tr', c')
             else (tr' @ [UpdateProgress (k * BATCH_SIZE + length chunk) len
                            (PauseStatus (k + 1) (total_batches len)),
                          Sleep 500], c')))"


subsection \<open>rebuildStorageFromChats\<close>

text \<open>
  StorageRebuilder.js, lines 253-393. A chat of the listing has a file name and a
  creation date; \<open>fetchFullChatData\<close> raises (\<open>FetchThrows\<close>), returns nothing usable
  (\<open>NoData\<close>: not a non-empty array) or returns an array whose first entry holds the
  metadata object or none. The fields of the metadata are tested for truthiness before
  use, so they are options with \<open>None\<close> for every falsy value. The requests and the clock
  are parameters: an environment of functions over a world state \<open>'w\<close> that every request
  may change. \<open>registerBranchWithPlugin\<close> answers \<open>False\<close> when it raises;
  \<open>migrateChatMetadata\<close> catches its own exceptions and returns a boolean; \<open>fetchAllChats\<close>
  answers \<open>Inl\<close> with the message when it raises, and the empty list stands for every
  empty answer.

  \<open>isCheckpointChat\<close> is lines 15-17: a non-empty name that includes \<open>Checkpoint #\<close>.
  \<open>strip_jsonl\<close> is \<open>file_name.replace(/\.jsonl$/g, '')\<close>: it removes a final \<open>.jsonl\<close>.
  \<open>read_chat\<close> is one round of the first loop (lines 275-333) and \<open>read_chats\<close> the loop
  from index \<open>i\<close> on; its state is the event list, \<open>branchDataList\<close>, \<open>uuidToChatName\<close>,
  \<open>skippedCount\<close> and the world. \<open>register_branch\<close> is the \<open>try\<close> block of lines 365-375
  on the counters \<open>processedCount\<close> and \<open>skippedCount\<close>.
\<close>

record chat =
  file_name :: string
  create_date :: "nat option"

record chat_metadata =
  meta_uuid :: "string option"
  meta_parent_uuid :: "string option"
  meta_root_uuid :: "string option"
  meta_branch_point :: "nat option"

datatype fetched = FetchThrows | NoData | FirstEntry "chat_metadata option"

datatype effect =
    FetchCall string
  | SaveCall string chat_metadata
  | RegisterCall branch
  | Log console
  | SkippingCheckpoint string
  | DuplicateUUID string string string
  | ErrorReadingChat string
  | Collected nat nat
  | ErrorRegistering string
  | ErrorDuringRebuild string
  | ErrorChecking string
  | CouldNotFetch string
  | ErrorMigrating string
  | ErrorDuringMigration string

record 'w env =
  avatar :: string
  date_now :: "'w \<Rightarrow> nat"
  fetchAllChats :: "'w \<Rightarrow> (string + chat list) \<times> 'w"
  fetchFullChatData :: "string \<Rightarrow> 'w \<Rightarrow> fetched \<times> 'w"
  registerBranchWithPlugin :: "branch \<Rightarrow> 'w \<Rightarrow> bool \<times> 'w"
  uuidv4 :: "'w \<Rightarrow> string \<times> 'w"
  migrateChatMetadata :: "string \<Rightarrow> chat_metadata \<Rightarrow> 'w \<Rightarrow> bool \<times> 'w"






definition register_branch ::
  "'w env \<Rightarrow> branch \<Rightarrow> nat \<times> nat \<times> 'w \<Rightarrow> effect list \<times> (nat \<times> nat \<times> 'w)"
where
  "register_branch env b =
     (\<lambda>(processedCount, skippedCount, w).
        case registerBranchWithPlugin env b w of
          (True, w') \<Rightarrow> ([RegisterCall b], (processedCount + 1, skippedCount, w'))
        | (False, w') \<Rightarrow>
            ([RegisterCall b, ErrorRegistering (chat_name b)],
             (processedCount, skippedCount + 1, w')))"

record rebuild_result =
  processedCount :: nat
  skippedCount :: nat
  error :: "string option"


subsection \<open>ChatMigrator.migrateAllChats\<close>







lemma progress_counts_append:
  "progress_counts (a @ b) = progress_counts a @ progress_counts b"
  by (simp add: progress_counts_def map_filter_def)

lemma progress_counts_Nil: "progress_counts [] = []"
  by (simp add: progress_counts_def map_filter_def)

lemma progress_counts_Cons:
  "progress_counts (e # es)
   = (case progress_of e of Some cur \<Rightarrow> [cur] | None \<Rightarrow> []) @ progress_counts es"
  by (cases "progress_of e") (simp_all add: progress_counts_def map_filter_def)

lemma progress_counts_calls: "progress_counts (map Call calls) = []"
  by (induction calls) (simp_all add: progress_counts_def map_filter_def)

lemma sleeps_calls: "filter is_sleep (map Call calls) = []"
  by (induction calls) simp_all

definition item_counts :: "nat \<Rightarrow> nat \<Rightarrow> nat list" where
  "item_counts a len = concat (map (\<lambda>i. [i, Suc i]) [a..<a + len])"

lemma item_counts_0: "item_counts a 0 = []"
  by (simp add: item_counts_def)

lemma item_counts_Suc: "item_counts a (Suc len) = [a, Suc a] @ item_counts (Suc a) len"
  by (simp add: item_counts_def upt_conv_Cons)

lemma item_counts_props:
  "sorted_wrt (\<le>) (item_counts a len) \<and> (\<forall>x\<in>set (item_counts a len). a \<le> x \<and> x \<le> a + len)
   \<and> (0 < len \<longrightarrow> item_counts a len \<noteq> [] \<and> last (item_counts a len) = a + len)"
proof (induction len arbitrary: a)
  case 0
  show ?case by (simp add: item_counts_0)
next
  case (Suc len)
  note IH = Suc.IH [of "Suc a"]
  have s: "sorted_wrt (\<le>) (item_counts a (Suc len))"
    using IH by (auto simp: item_counts_Suc)
  have b: "\<forall>x\<in>set (item_counts a (Suc len)). a \<le> x \<and> x \<le> a + Suc len"
    using IH by (auto simp: item_counts_Suc)
  have l: "last (item_counts a (Suc len)) = a + Suc len"
  proof (cases len)
    case 0
    then show ?thesis by (simp add: item_counts_Suc item_counts_0)
  next
    case (Suc m)
    with IH have "item_counts (Suc a) len \<noteq> []" "last (item_counts (Suc a) len) = Suc a + len"
      by simp_all
    then show ?thesis by (simp add: item_counts_Suc)
  qed
  from s b l show ?case by (simp add: item_counts_Suc)
qed

lemma process_batch_trace:
  "filter is_sleep (fst (process_batch verb body label n g items (tr, c))) = filter is_sleep tr
   \<and> progress_counts (fst (process_batch verb body label n g items (tr, c)))
       = progress_counts tr @ item_counts g (length items)"
proof (induction items arbitrary: g tr c)
  case Nil
  show ?case by (simp add: item_counts_0)
next
  case (Cons x items)
  obtain calls c' where b: "body x c = (calls, c')" by (cases "body x c")
  show ?case
    by (simp add: b Cons.IH sleeps_calls progress_counts_append progress_counts_calls
        progress_counts_Cons progress_counts_Nil item_counts_Suc)
qed

lemma below_quotient: "k < (n::nat) div 50 \<Longrightarrow> Suc k * 50 \<le> n"
proof -
  assume "k < n div 50"
  then have "Suc k \<le> n div 50" by simp
  then have "Suc k * 50 \<le> n div 50 * 50" by (rule mult_le_mono1)
  also have "\<dots> \<le> n" by (rule div_times_less_eq_dividend)
  finally show ?thesis .
qed

lemma below_ceiling: "k < ((n::nat) + 49) div 50 \<Longrightarrow> k * 50 < n"
proof (rule ccontr)
  assume k: "k < (n + 49) div 50" and "\<not> k * 50 < n"
  then have "n + 49 < Suc k * 50" by simp
  then have "(n + 49) div 50 < Suc k" by (rule less_mult_imp_div_less)
  with k show False by simp
qed

lemma ceiling_covers: "(n::nat) \<le> ((n + 49) div 50) * 50"
proof -
  define q where "q = (n + 49) div 50"
  define r where "r = (n + 49) mod 50"
  have "n + 49 = q * 50 + r" by (simp add: q_def r_def)
  moreover have "r < 50" by (simp add: r_def)
  ultimately have "n \<le> q * 50" by linarith
  then show ?thesis by (simp add: q_def)
qed

lemma ceiling_alt: "((n::nat) + 49) div 50 = n div 50 + (if n mod 50 = 0 then 0 else 1)"
proof -
  define q where "q = n div 50"
  define r where "r = n mod 50"
  have n: "n = q * 50 + r" and r: "r < 50" by (simp_all add: q_def r_def)
  show ?thesis
  proof (cases "r = 0")
    case True
    with n have "(n + 49) div 50 = q" by simp
    with True show ?thesis by (simp add: q_def r_def)
  next
    case False
    with r have "(r + 49) div 50 = 1" by simp
    with n have "(n + 49) div 50 = q + 1"
      by (simp add: add.assoc div_mult_self3)
    with False show ?thesis by (simp add: q_def r_def)
  qed
qed

lemma total_batches_alt:
  "total_batches n = n div BATCH_SIZE + (if n mod BATCH_SIZE = 0 then 0 else 1)"
  unfolding total_batches_def BATCH_SIZE_def using ceiling_alt [of n] by simp

lemma batch_in_range:
  "k < total_batches n \<Longrightarrow> k * BATCH_SIZE < n"
  unfolding total_batches_def BATCH_SIZE_def using below_ceiling [of k n] by simp

lemma batch_slice:
  "take (min (k * BATCH_SIZE + BATCH_SIZE) (length xs) - k * BATCH_SIZE) (drop (k * BATCH_SIZE) xs)
   = take BATCH_SIZE (drop (k * BATCH_SIZE) xs)"
proof (cases "k * BATCH_SIZE + BATCH_SIZE \<le> length xs")
  case True
  then show ?thesis by simp
next
  case False
  then have "min (k * BATCH_SIZE + BATCH_SIZE) (length xs) - k * BATCH_SIZE
             = length (drop (k * BATCH_SIZE) xs)" by simp
  moreover from False have "length (drop (k * BATCH_SIZE) xs) \<le> BATCH_SIZE" by simp
  ultimately show ?thesis by simp
qed

lemma chunk_length:
  "k < total_batches (length xs) \<Longrightarrow>
   length (take BATCH_SIZE (drop (k * BATCH_SIZE) xs))
     = min (k * BATCH_SIZE + BATCH_SIZE) (length xs) - k * BATCH_SIZE"
  by simp

lemma length_chunks: "length (chunks xs) = total_batches (length xs)"
  by (simp add: chunks_def)

lemma concat_chunks_take:
  "concat (map (\<lambda>k. take m (drop (k * m) xs)) [0..<t]) = take (t * m) xs"
proof (induction t)
  case 0
  show ?case by simp
next
  case (Suc t)
  have "take (t * m) xs @ take m (drop (t * m) xs) = take (t * m + m) xs"
    by (simp add: take_add)
  with Suc show ?case by (simp add: add.commute)
qed

lemma concat_chunks: "concat (chunks xs) = xs"
proof -
  have "length xs \<le> total_batches (length xs) * BATCH_SIZE"
    unfolding total_batches_def BATCH_SIZE_def using ceiling_covers [of "length xs"] by simp
  then show ?thesis by (simp add: chunks_def concat_chunks_take)
qed

lemma chunk_sizes:
  "map length (chunks xs)
   = replicate (length xs div BATCH_SIZE) BATCH_SIZE
     @ (if length xs mod BATCH_SIZE = 0 then [] else [length xs mod BATCH_SIZE])"
proof (rule nth_equalityI)
  show "length (map length (chunks xs))
        = length (replicate (length xs div BATCH_SIZE) BATCH_SIZE
     @ (if length xs mod BATCH_SIZE = 0 then [] else [length xs mod BATCH_SIZE]))"
    by (simp add: length_chunks total_batches_alt)
next
  fix k assume "k < length (map length (chunks xs))"
  then have k: "k < total_batches (length xs)" by (simp add: length_chunks)
  then have kn: "k * BATCH_SIZE < length xs" by (rule batch_in_range)
  have lhs: "map length (chunks xs) ! k = min BATCH_SIZE (length xs - k * BATCH_SIZE)"
    using k by (simp add: chunks_def)
  show "map length (chunks xs) ! k
        = (replicate (length xs div BATCH_SIZE) BATCH_SIZE
     @ (if length xs mod BATCH_SIZE = 0 then [] else [length xs mod BATCH_SIZE])) ! k"
  proof (cases "k < length xs div BATCH_SIZE")
    case True
    then have "Suc k * BATCH_SIZE \<le> length xs"
      unfolding BATCH_SIZE_def by (rule below_quotient)
    then have "min BATCH_SIZE (length xs - k * BATCH_SIZE) = BATCH_SIZE" by simp
    with True show ?thesis by (simp add: lhs nth_append)
  next
    case False
    with k have keq: "k = length xs div BATCH_SIZE" and nz: "length xs mod BATCH_SIZE \<noteq> 0"
      by (auto simp: total_batches_alt split: if_splits)
    have "length xs - k * BATCH_SIZE = length xs mod BATCH_SIZE"
      unfolding keq by (simp add: minus_div_mult_eq_mod)
    moreover have "length xs mod BATCH_SIZE < BATCH_SIZE" by (simp add: BATCH_SIZE_def)
    ultimately have "min BATCH_SIZE (length xs - k * BATCH_SIZE) = length xs mod BATCH_SIZE"
      by simp
    with lhs have l: "map length (chunks xs) ! k = length xs mod BATCH_SIZE" by simp
    have "(replicate (length xs div BATCH_SIZE) BATCH_SIZE
            @ (if length xs mod BATCH_SIZE = 0 then [] else [length xs mod BATCH_SIZE])) ! k
          = length xs mod BATCH_SIZE"
      using nz by (simp add: keq nth_append)
    with l show ?thesis by simp
  qed
qed


lemma run_batches_refines:
  "batchIndex \<le> total_batches (length xs) \<Longrightarrow>
   run_batches verb body label xs batchIndex st
   = run_chunks verb body label (length xs) batchIndex
       (map (\<lambda>k. take BATCH_SIZE (drop (k * BATCH_SIZE) xs))
          [batchIndex..<total_batches (length xs)]) st"
proof (induction verb body label xs batchIndex st rule: run_batches.induct)
  case (1 verb body label xs k st)
  let ?T = "total_batches (length xs)"
  let ?chunk = "\<lambda>k. take BATCH_SIZE (drop (k * BATCH_SIZE) xs)"
  show ?case
  proof (cases "k < ?T")
    case False
    then have r: "run_batches verb body label xs k st = st"
      by (simp add: run_batches.simps [of verb body label xs k st] Let_def)
    from False have e: "map ?chunk [k..<?T] = []" by simp
    show ?thesis unfolding e r by simp
  next
    case True
    obtain tr c where st: "st = (tr, c)" by (cases st)
    define st1 where "st1 = (tr @ [UpdateProgress (k * BATCH_SIZE) (length xs)
                               (BatchStatus verb (k + 1) ?T)], c)"
    define st2 where "st2 = process_batch verb body label (length xs) (k * BATCH_SIZE) (?chunk k) st1"
    define st3 where "st3 = (if k < ?T - 1
                    then (fst st2 @ [UpdateProgress (min (k * BATCH_SIZE + BATCH_SIZE) (length xs))
                                      (length xs) (PauseStatus (k + 1) ?T),
                                     Sleep 500], snd st2)
                    else st2)"
    have code: "run_batches verb body label xs k st = run_batches verb body label xs (k + 1) st3"
      using True unfolding st
      by (simp add: run_batches.simps [of verb body label xs k "(tr, c)"] st1_def st2_def st3_def
          batch_slice Let_def)
    have "k + 1 \<le> ?T" using True by simp
    note step = "1.IH" [OF refl True refl refl refl refl refl refl this]
    have IH: "run_batches verb body label xs (k + 1) st3
              = run_chunks verb body label (length xs) (k + 1) (map ?chunk [k + 1..<?T]) st3"
    proof (cases "k < ?T - 1")
      case True
      with step show ?thesis by (simp add: st st1_def st2_def st3_def batch_slice)
    next
      case False
      with step show ?thesis by (simp add: st st1_def st2_def st3_def batch_slice)
    qed
    have upt: "[k..<?T] = k # [k + 1..<?T]" using True by (simp add: upt_conv_Cons)
    have rest: "map ?chunk [k + 1..<?T] = [] \<longleftrightarrow> \<not> k < ?T - 1" by auto
    have len: "k * BATCH_SIZE + length (?chunk k) = min (k * BATCH_SIZE + BATCH_SIZE) (length xs)"
      using batch_in_range [OF True] by simp
    obtain tr' c' where p: "st2 = (tr', c')" by (cases st2)
    have "run_chunks verb body label (length xs) k (map ?chunk [k..<?T]) st
          = run_chunks verb body label (length xs) (k + 1) (map ?chunk [k + 1..<?T]) st3"
      unfolding upt st
      using p [unfolded st2_def st1_def] rest len
      by (simp add: st3_def p del: upt_Suc)
    with code IH show ?thesis by simp
  qed
qed

fun uniform :: "'a list list \<Rightarrow> bool" where
  "uniform [] = True"
| "uniform (chunk # rest) = ((rest \<noteq> [] \<longrightarrow> length chunk = BATCH_SIZE) \<and> uniform rest)"

lemma run_chunks_sleeps:
  "filter is_sleep (fst (run_chunks verb body label n k cs (tr, c)))
   = filter is_sleep tr @ replicate (length cs - 1) (Sleep 500)"
proof (induction cs arbitrary: k tr c)
  case Nil
  show ?case by simp
next
  case (Cons chunk rest)
  obtain tr' c' where p: "process_batch verb body label n (k * BATCH_SIZE) chunk
             (tr @ [UpdateProgress (k * BATCH_SIZE) n
                      (BatchStatus verb (Suc k) (total_batches n))], c) = (tr', c')"
    by (cases "process_batch verb body label n (k * BATCH_SIZE) chunk
             (tr @ [UpdateProgress (k * BATCH_SIZE) n
                      (BatchStatus verb (Suc k) (total_batches n))], c)")
  from process_batch_trace [of verb body label n "k * BATCH_SIZE" chunk
      "tr @ [UpdateProgress (k * BATCH_SIZE) n (BatchStatus verb (Suc k) (total_batches n))]" c]
  have s: "filter is_sleep tr' = filter is_sleep tr" by (simp add: p)
  show ?case
  proof (cases "rest = []")
    case True
    then show ?thesis by (simp add: p s)
  next
    case False
    then have run: "run_chunks verb body label n k (chunk # rest) (tr, c)
               = run_chunks verb body label n (Suc k) rest
                   (tr' @ [UpdateProgress (k * BATCH_SIZE + length chunk) n
                            (PauseStatus (Suc k) (total_batches n)), Sleep 500], c')"
      by (simp add: p)
    from False obtain m where m: "length rest = Suc m" by (cases rest) auto
    show ?thesis unfolding run Cons.IH by (simp add: s m)
  qed
qed

lemma run_chunks_progress:
  "sorted_wrt (\<le>) (progress_counts tr) \<Longrightarrow> \<forall>x\<in>set (progress_counts tr). x \<le> k * BATCH_SIZE \<Longrightarrow>
   uniform cs \<Longrightarrow>
     sorted_wrt (\<le>) (progress_counts (fst (run_chunks verb body label n k cs (tr, c))))
     \<and> (\<forall>x\<in>set (progress_counts (fst (run_chunks verb body label n k cs (tr, c)))).
           x \<le> k * BATCH_SIZE + length (concat cs))
     \<and> (cs \<noteq> [] \<longrightarrow> progress_counts (fst (run_chunks verb body label n k cs (tr, c))) \<noteq> []
           \<and> last (progress_counts (fst (run_chunks verb body label n k cs (tr, c))))
               = k * BATCH_SIZE + length (concat cs))"
proof (induction cs arbitrary: k tr c)
  case Nil
  then show ?case by simp
next
  case (Cons chunk rest)
  let ?s = "k * BATCH_SIZE"
  obtain tr' c' where p: "process_batch verb body label n ?s chunk
             (tr @ [UpdateProgress ?s n (BatchStatus verb (Suc k) (total_batches n))], c) = (tr', c')"
    by (cases "process_batch verb body label n ?s chunk
             (tr @ [UpdateProgress ?s n (BatchStatus verb (Suc k) (total_batches n))], c)")
  from process_batch_trace [of verb body label n ?s chunk
      "tr @ [UpdateProgress ?s n (BatchStatus verb (Suc k) (total_batches n))]" c]
  have pc: "progress_counts tr' = progress_counts tr @ [?s] @ item_counts ?s (length chunk)"
    by (simp add: p progress_counts_append progress_counts_Cons progress_counts_Nil)
  note ic = item_counts_props [of ?s "length chunk"]
  have "\<forall>x\<in>set (progress_counts tr). \<forall>y\<in>set (item_counts ?s (length chunk)). x \<le> y"
    using Cons.prems(2) ic by (meson order_trans)
  then have sorted': "sorted_wrt (\<le>) (progress_counts tr')"
    using Cons.prems(1,2) ic by (simp add: pc sorted_append)
  have bound': "\<forall>x\<in>set (progress_counts tr'). x \<le> ?s + length chunk"
    using Cons.prems(2) ic by (auto simp: pc)
  have last': "progress_counts tr' \<noteq> [] \<and> last (progress_counts tr') = ?s + length chunk"
  proof (cases "length chunk = 0")
    case True
    then show ?thesis by (simp add: pc item_counts_0)
  next
    case False
    with ic have "item_counts ?s (length chunk) \<noteq> []"
      "last (item_counts ?s (length chunk)) = ?s + length chunk" by simp_all
    then show ?thesis by (simp add: pc)
  qed
  show ?case
  proof (cases "rest = []")
    case True
    with sorted' bound' last' show ?thesis by (simp add: p)
  next
    case False
    with Cons.prems(3) have full: "length chunk = BATCH_SIZE" and u: "uniform rest" by simp_all
    let ?tr3 = "tr' @ [UpdateProgress (?s + length chunk) n
                            (PauseStatus (Suc k) (total_batches n)), Sleep 500]"
    have pc3: "progress_counts ?tr3 = progress_counts tr' @ [?s + length chunk]"
      by (simp add: progress_counts_append progress_counts_Cons progress_counts_Nil)
    have s3: "sorted_wrt (\<le>) (progress_counts ?tr3)"
      using sorted' bound' by (simp add: pc3 sorted_append)
    have b3: "\<forall>x\<in>set (progress_counts ?tr3). x \<le> Suc k * BATCH_SIZE"
      unfolding pc3 using bound' full by auto
    note IH = Cons.IH [OF s3 b3 u, of c']
    have run: "run_chunks verb body label n k (chunk # rest) (tr, c)
               = run_chunks verb body label n (Suc k) rest (?tr3, c')"
      using False by (simp add: p)
    have e: "Suc k * BATCH_SIZE + length (concat rest)
             = ?s + length (concat (chunk # rest))"
      using full by simp
    from IH False show ?thesis unfolding run e [symmetric] by simp
  qed
qed

lemma uniform_lengths:
  "map length cs = replicate q BATCH_SIZE @ tl' \<Longrightarrow> length tl' \<le> 1 \<Longrightarrow> uniform cs"
proof (induction q arbitrary: cs)
  case 0
  then show ?case by (cases cs; cases "tl cs") auto
next
  case (Suc q)
  then obtain chunk rest where cs: "cs = chunk # rest" and l: "length chunk = BATCH_SIZE"
    and r: "map length rest = replicate q BATCH_SIZE @ tl'" by (cases cs) auto
  from Suc.IH [OF r Suc.prems(2)] l show ?case by (simp add: cs)
qed

lemma uniform_chunks: "uniform (chunks xs)"
  by (rule uniform_lengths [OF chunk_sizes]) simp




lemma run_batches_chunks:
  "run_batches verb body label xs 0 st
   = run_chunks verb body label (length xs) 0 (chunks xs) st"
  using run_batches_refines [of 0 xs verb body label st] by (simp add: chunks_def)


lemma total_batches_ceiling:
  "n \<le> total_batches n * BATCH_SIZE \<and> (0 < n \<longrightarrow> (total_batches n - 1) * BATCH_SIZE < n)"
proof -
  have a: "n \<le> total_batches n * BATCH_SIZE"
    unfolding total_batches_def BATCH_SIZE_def using ceiling_covers [of n] by simp
  have b: "(total_batches n - 1) * BATCH_SIZE < n" if "0 < n"
  proof -
    from that a have "0 < total_batches n" by (cases "total_batches n") auto
    then have "total_batches n - 1 < total_batches n" by simp
    then show ?thesis by (rule batch_in_range)
  qed
  from a b show ?thesis by simp
qed

lemma length_item_runs: "length (item_runs body xs c) = length xs"
  by (induction xs arbitrary: c) simp_all

lemma map_fst_item_runs: "map fst (item_runs body xs c) = xs"
  by (induction xs arbitrary: c) simp_all

lemma final_counters_append:
  "final_counters body (a @ b) c = final_counters body b (final_counters body a c)"
  by (induction a arbitrary: c) simp_all

lemma take_item_runs: "take m (item_runs body ys c) = item_runs body (take m ys) c"
proof (induction ys arbitrary: m c)
  case Nil
  show ?case by simp
next
  case (Cons y ys)
  show ?case by (cases m) (simp_all add: Cons.IH)
qed

lemma drop_item_runs:
  "drop j (item_runs body xs c) = item_runs body (drop j xs) (final_counters body (take j xs) c)"
proof (induction xs arbitrary: j c)
  case Nil
  show ?case by simp
next
  case (Cons x xs)
  show ?case by (cases j) (simp_all add: Cons.IH)
qed

lemma chunk_item_runs:
  "take m (drop j (item_runs body xs c))
   = item_runs body (take m (drop j xs)) (final_counters body (take j xs) c)"
  by (simp add: drop_item_runs take_item_runs)

lemma chunks_item_runs: "map (map fst) (chunks (item_runs body xs c)) = chunks xs"
  by (simp add: chunks_def length_item_runs take_map drop_map map_fst_item_runs
      flip: take_map drop_map)

lemma upt_shift: "[g..<g + Suc m] = g # [Suc g..<Suc g + m]"
proof -
  have "[g..<g + Suc m] = g # [Suc g..<g + Suc m]" by (rule upt_conv_Cons) simp
  then show ?thesis by (simp only: add_Suc_right add_Suc)
qed

lemma items_events_Nil: "items_events verb label n g [] = []"
  by (simp add: items_events_def)

lemma items_events_Cons:
  "items_events verb label n g ((x, calls) # runs)
   = UpdateProgress g n (ItemStatus verb (label x)) # map Call calls
       @ [UpdateProgress (Suc g) n NoStatus] @ items_events verb label n (Suc g) runs"
proof -
  have len: "length ((x, calls) # runs) = Suc (length runs)" by simp
  show ?thesis
    unfolding items_events_def len upt_shift by (simp add: item_events_def del: upt_Suc)
qed

lemma process_batch_events:
  "process_batch verb body label n g items (tr, c)
   = (tr @ items_events verb label n g (item_runs body items c), final_counters body items c)"
proof (induction items arbitrary: g tr c)
  case Nil
  show ?case by (simp add: items_events_Nil)
next
  case (Cons x items)
  obtain calls c' where b: "body x c = (calls, c')" by (cases "body x c")
  show ?case by (simp add: b Cons.IH items_events_Cons)
qed


lemma nth_chunks:
  "k < total_batches (length ys) \<Longrightarrow> chunks ys ! k = take BATCH_SIZE (drop (k * BATCH_SIZE) ys)"
  by (simp add: chunks_def)

lemma run_batches_events_from:
  "k \<le> total_batches (length xs) \<Longrightarrow>
   run_batches verb body label xs k
     (tr, final_counters body (take (k * BATCH_SIZE) xs) c0)
   = (tr @ concat (map (\<lambda>j. chunk_events verb label (length xs) j
                          (chunks (item_runs body xs c0) ! j)
                          (Suc j = total_batches (length xs)))
                 [k..<total_batches (length xs)]),
      final_counters body xs c0)"
proof (induction "total_batches (length xs) - k" arbitrary: k tr)
  case 0
  let ?T = "total_batches (length xs)"
  from 0 have k: "k = ?T" by simp
  have "length xs \<le> ?T * BATCH_SIZE" using total_batches_ceiling [of "length xs"] by simp
  then have all: "take (k * BATCH_SIZE) xs = xs" by (simp add: k)
  show ?case
    unfolding all by (subst run_batches.simps) (simp add: k Let_def)
next
  case (Suc d)
  let ?n = "length xs"
  let ?T = "total_batches ?n"
  let ?runs = "item_runs body xs c0"
  let ?s = "k * BATCH_SIZE"
  from Suc.hyps(2) have kT: "k < ?T" by simp
  define ck where "ck = final_counters body (take ?s xs) c0"
  define batch where "batch = take BATCH_SIZE (drop ?s xs)"
  define runs_k where "runs_k = chunks ?runs ! k"
  define st1 where "st1 = (tr @ [UpdateProgress ?s ?n (BatchStatus verb (k + 1) ?T)], ck)"
  define st2 where "st2 = process_batch verb body label ?n ?s batch st1"
  define st3 where "st3 = (if k < ?T - 1
                    then (fst st2 @ [UpdateProgress (min (?s + BATCH_SIZE) ?n) ?n
                                       (PauseStatus (k + 1) ?T),
                                     Sleep 500], snd st2)
                    else st2)"
  have code: "run_batches verb body label xs k (tr, ck) = run_batches verb body label xs (k + 1) st3"
    using kT
    by (simp add: run_batches.simps [of verb body label xs k "(tr, ck)"] st1_def st2_def st3_def
        batch_def batch_slice Let_def)
  have rk: "runs_k = item_runs body batch ck"
    unfolding runs_k_def batch_def ck_def
    using kT by (simp add: nth_chunks length_item_runs chunk_item_runs)
  have len: "?s + length runs_k = min (?s + BATCH_SIZE) ?n"
    using batch_in_range [OF kT] by (simp add: rk length_item_runs batch_def)
  have tk: "take (?s + BATCH_SIZE) xs = take ?s xs @ batch"
    by (simp add: batch_def take_add)
  define cn where "cn = final_counters body (take (Suc k * BATCH_SIZE) xs) c0"
  from tk have ck': "final_counters body batch ck = cn"
    by (simp add: cn_def ck_def final_counters_append add.commute)
  have st2: "st2 = (tr @ UpdateProgress ?s ?n (BatchStatus verb (Suc k) ?T)
                        # items_events verb label ?n ?s runs_k, cn)"
    unfolding st2_def st1_def by (simp add: process_batch_events rk ck')
  have last: "k < ?T - 1 \<longleftrightarrow> Suc k \<noteq> ?T" using kT by auto
  have st3: "st3 = (tr @ chunk_events verb label ?n k runs_k (Suc k = ?T), cn)"
    unfolding st3_def st2 chunk_events_def using last len by simp
  from Suc.hyps(2) kT have d: "d = ?T - Suc k" and le: "Suc k \<le> ?T" by simp_all
  note IH = Suc.hyps(1) [OF d le, of "tr @ chunk_events verb label ?n k runs_k (Suc k = ?T)",
      folded cn_def]
  have upt: "[k..<?T] = k # [Suc k..<?T]" using kT by (rule upt_conv_Cons)
  show ?case
    unfolding ck_def [symmetric] code st3 Suc_eq_plus1 [symmetric] IH upt
    by (simp add: runs_k_def)
qed

lemma run_batches_events:
  "run_batches verb body label xs 0 (tr, c)
   = (tr @ batch_events verb body label xs c, final_counters body xs c)"
  using run_batches_events_from [of 0 xs verb body label tr c]
  by (simp add: batch_events_def length_chunks length_item_runs Let_def)

lemma calls_of_append: "calls_of (a @ b) = calls_of a @ calls_of b"
  by (simp add: calls_of_def map_filter_def)

lemma calls_of_Nil: "calls_of [] = []"
  by (simp add: calls_of_def map_filter_def)

lemma calls_of_Cons:
  "calls_of (e # es) = (case call_of e of Some c \<Rightarrow> [c] | None \<Rightarrow> []) @ calls_of es"
  by (cases "call_of e") (simp_all add: calls_of_def map_filter_def)

lemma calls_of_calls: "calls_of (map Call calls) = calls"
  by (induction calls) (simp_all add: calls_of_Nil calls_of_Cons)

lemma calls_of_items_events:
  "calls_of (items_events verb label n g runs) = concat (map snd runs)"
proof (induction runs arbitrary: g)
  case Nil
  show ?case by (simp add: items_events_Nil calls_of_Nil)
next
  case (Cons r runs)
  obtain x calls where r: "r = (x, calls)" by (cases r)
  show ?case
    by (simp add: r items_events_Cons calls_of_Cons calls_of_append calls_of_calls calls_of_Nil
        Cons.IH)
qed

lemma calls_of_chunk_events:
  "calls_of (chunk_events verb label n k runs is_last) = concat (map snd runs)"
  by (simp add: chunk_events_def calls_of_Cons calls_of_append calls_of_items_events calls_of_Nil)

lemma calls_of_concat: "calls_of (concat ts) = concat (map calls_of ts)"
  by (induction ts) (simp_all add: calls_of_Nil calls_of_append)

lemma concat_map_chunks:
  "concat (map (\<lambda>ch. concat (map f ch)) cs) = concat (map f (concat cs))"
  by (induction cs) simp_all

lemma calls_of_batch_events:
  "calls_of (batch_events verb body label xs c) = concat (map snd (item_runs body xs c))"
proof -
  let ?cs = "chunks (item_runs body xs c)"
  have "calls_of (batch_events verb body label xs c)
        = concat (map (\<lambda>k. concat (map snd (?cs ! k))) [0..<length ?cs])"
    by (simp add: batch_events_def Let_def calls_of_concat comp_def calls_of_chunk_events)
  also have "map (\<lambda>k. concat (map snd (?cs ! k))) [0..<length ?cs]
             = map (\<lambda>ch. concat (map snd ch)) ?cs"
    by (rule nth_equalityI) simp_all
  also have "concat (map (\<lambda>ch. concat (map snd ch)) ?cs) = concat (map snd (concat ?cs))"
    by (rule concat_map_chunks)
  finally show ?thesis by (simp add: concat_chunks)
qed


lemma batch_events_run_chunks:
  "batch_events verb body label xs c
   = fst (run_chunks verb body label (length xs) 0 (chunks xs) ([], c))"
  using run_batches_events [of verb body label xs "[]" c]
    run_batches_chunks [of verb body label xs "([], c)"]
  by simp

lemma batch_events_sleeps:
  "filter is_sleep (batch_events verb body label xs c)
   = replicate (total_batches (length xs) - 1) (Sleep 500)"
  unfolding batch_events_run_chunks
  using run_chunks_sleeps [of verb body label "length xs" 0 "chunks xs" "[]" c]
  by (simp add: length_chunks)

lemma batch_events_progress:
  "sorted_wrt (\<le>) (progress_counts (batch_events verb body label xs c))
   \<and> (\<forall>p\<in>set (progress_counts (batch_events verb body label xs c)). p \<le> length xs)
   \<and> last (0 # progress_counts (batch_events verb body label xs c)) = length xs"
proof -
  let ?ev = "batch_events verb body label xs c"
  have "sorted_wrt (\<le>) (progress_counts [])"
    and "\<forall>x\<in>set (progress_counts []). x \<le> 0 * BATCH_SIZE"
    by (simp_all add: progress_counts_Nil)
  from run_chunks_progress [OF this uniform_chunks, of verb body label "length xs" xs c]
  have prog: "sorted_wrt (\<le>) (progress_counts ?ev)"
    "\<forall>p\<in>set (progress_counts ?ev). p \<le> length xs"
    "chunks xs \<noteq> [] \<longrightarrow> progress_counts ?ev \<noteq> [] \<and> last (progress_counts ?ev) = length xs"
    unfolding batch_events_run_chunks by (simp_all add: concat_chunks)
  have "last (0 # progress_counts ?ev) = length xs"
  proof (cases "xs = []")
    case True
    then have "chunks xs = []" by (simp add: chunks_def total_batches_def BATCH_SIZE_def)
    then have "?ev = []" by (simp add: batch_events_run_chunks)
    with True show ?thesis by (simp add: progress_counts_Nil)
  next
    case False
    with concat_chunks [of xs] have "chunks xs \<noteq> []" by auto
    with prog(3) show ?thesis by simp
  qed
  with prog(1,2) show ?thesis by blast
qed

text \<open>
  C7. For every input list \<open>xs\<close> of \<open>n\<close> records, every item body and every start state,
  the batch loop appends to the event list exactly the events of the chunks of \<open>xs\<close> and
  ends with the counters that result from processing every record once, in order. The
  effects in these events are the effects of the records, one record after the other.
  The chunks concatenate to \<open>xs\<close>; there are \<open>total_batches n\<close> of them, which is the
  ceiling of \<open>n / 50\<close> (the least number of fifties that covers \<open>n\<close>); \<open>n div 50\<close> chunks hold
  50 records and a last chunk holds the \<open>n mod 50\<close> remaining ones when there are any. The
  events hold one pause of 500 ms after every chunk but the last: one less than the
  number of chunks when \<open>n > 0\<close>, and none when \<open>n = 0\<close>, where there is no chunk. The
  completed counts reported never decrease, never exceed \<open>n\<close>, and, from the 0 that the
  caller reports before the loop, end at \<open>n\<close>.
\<close>

theorem run_batches_chunks_pauses_progress:
  "run_batches verb body label xs 0 (tr0, c)
     = (tr0 @ batch_events verb body label xs c, final_counters body xs c)
   \<and> map fst (item_runs body xs c) = xs
   \<and> calls_of (batch_events verb body label xs c) = concat (map snd (item_runs body xs c))
   \<and> map (map fst) (chunks (item_runs body xs c)) = chunks xs
   \<and> concat (chunks xs) = xs
   \<and> length (chunks xs) = total_batches (length xs)
   \<and> length xs \<le> total_batches (length xs) * 50
   \<and> (0 < length xs \<longrightarrow> (total_batches (length xs) - 1) * 50 < length xs)
   \<and> map length (chunks xs)
       = replicate (length xs div 50) 50 @ (if length xs mod 50 = 0 then [] else [length xs mod 50])
   \<and> filter is_sleep (batch_events verb body label xs c)
       = replicate (total_batches (length xs) - 1) (Sleep 500)
   \<and> (0 < length xs \<longrightarrow>
        Suc (length (filter is_sleep (batch_events verb body label xs c)))
          = total_batches (length xs))
   \<and> sorted_wrt (\<le>) (progress_counts (batch_events verb body label xs c))
   \<and> (\<forall>p\<in>set (progress_counts (batch_events verb body label xs c)). p \<le> length xs)
   \<and> last (0 # progress_counts (batch_events verb body label xs c)) = length xs"
proof -
  let ?n = "length xs"
  have ceil: "?n \<le> total_batches ?n * 50 \<and> (0 < ?n \<longrightarrow> (total_batches ?n - 1) * 50 < ?n)"
    using total_batches_ceiling [of ?n] by (simp add: BATCH_SIZE_def)
  have sizes: "map length (chunks xs)
       = replicate (?n div 50) 50 @ (if ?n mod 50 = 0 then [] else [?n mod 50])"
    using chunk_sizes [of xs] by (simp add: BATCH_SIZE_def)
  have pos: "0 < total_batches ?n" if "0 < ?n"
    using that ceil by (cases "total_batches ?n") auto
  have count: "0 < ?n \<longrightarrow>
        Suc (length (filter is_sleep (batch_events verb body label xs c))) = total_batches ?n"
    using pos by (simp add: batch_events_sleeps)
  from run_batches_events [of verb body label xs tr0 c] map_fst_item_runs [of body xs c]
    calls_of_batch_events [of verb body label xs c] chunks_item_runs [of body xs c]
    concat_chunks [of xs] length_chunks [of xs] ceil sizes
    batch_events_sleeps [of verb body label xs c] count
    batch_events_progress [of verb body label xs c]
  show ?thesis by blast
qed


subsection \<open>Checkpoint chats\<close>
























text \<open>
  Runs on concrete listings: a server that gives every chat the same answer, accepts
  every registration and every save.
\<close>

definition example_env :: "fetched \<Rightarrow> chat list \<Rightarrow> unit env" where
  "example_env answer chats =
     \<lparr>avatar = ''avatar.png'',
      date_now = (\<lambda>w. 0),
      fetchAllChats = (\<lambda>w. (Inr chats, w)),
      fetchFullChatData = (\<lambda>chatName w. (answer, w)),
      registerBranchWithPlugin = (\<lambda>b w. (True, w)),
      uuidv4 = (\<lambda>w. (''generated'', w)),
      migrateChatMetadata = (\<lambda>chatName md w. (True, w))\<rparr>"


definition with_uuid :: fetched where
  "with_uuid = FirstEntry (Some \<lparr>meta_uuid = Some ''A'', meta_parent_uuid = None,
                                meta_root_uuid = Some ''A'', meta_branch_point = None\<rparr>)"

definition example_branch :: "string \<Rightarrow> branch" where
  "example_branch n =
     \<lparr>uuid = ''A'', parent_uuid = None, root_uuid = ''A'', character_id = ''avatar.png'',
      chat_name = n, branch_point = None, created_at = 1\<rparr>"








text \<open>
  120 records: three chunks of 50, 50 and 20 records, two pauses, and a last completed
  count of 120.
\<close>

theorem run_batches_120_witness:
  "0 < length (replicate 120 (example_branch ''main''))
   \<and> map length (chunks (replicate 120 (example_branch ''main''))) = [50, 50, 20]
   \<and> length (item_runs (register_branch (example_env with_uuid []))
        (replicate 120 (example_branch ''main'')) (0, 0, ())) = 120
   \<and> filter is_sleep (batch_events ''Registering''
         (register_branch (example_env with_uuid [])) chat_name
         (replicate 120 (example_branch ''main'')) (0, 0, ()))
       = [Sleep 500, Sleep 500]
   \<and> last (0 # progress_counts (batch_events ''Registering''
         (register_branch (example_env with_uuid [])) chat_name
         (replicate 120 (example_branch ''main'')) (0, 0, ()))) = 120
   \<and> fst (run_batches ''Registering'' (register_branch (example_env with_uuid [])) chat_name
         (replicate 120 (example_branch ''main'')) 0 ([], (0, 0, ())))
      = batch_events ''Registering''
         (register_branch (example_env with_uuid [])) chat_name
         (replicate 120 (example_branch ''main'')) (0, 0, ())"
  using run_batches_chunks_pauses_progress
    [of "''Registering''" "register_branch (example_env with_uuid [])" chat_name
        "replicate 120 (example_branch ''main'')" "[]" "(0, 0, ())"]
  by (elim conjE) (simp add: total_batches_def BATCH_SIZE_def numeral_2_eq_2 length_item_runs)

end
